theory Spec2Isabelle
  imports Main "HOL-Library.Word" "HOL-Library.Monad_Syntax" "HOL-Library.Multiset"
begin

unbundle bit_operations_syntax

section \<open>Scalars: IEEE-754 bit patterns\<close>

text \<open>
  A C \<^verbatim>\<open>float\<close> is its 32-bit IEEE-754 pattern, a \<^verbatim>\<open>double\<close> its 64-bit pattern.
  Classification and the ordered comparisons (\<^verbatim>\<open>==\<close>, \<^verbatim>\<open><\<close>, \<^verbatim>\<open>>\<close>) are defined
  on the bits. Rounded arithmetic (\<^verbatim>\<open>*\<close>, \<^verbatim>\<open>/\<close>) is done by the hardware or by the
  linear-algebra backend; every function that uses it takes the operation as a parameter.
\<close>

type_synonym byte = "8 word"
type_synonym float = "32 word"
type_synonym double = "64 word"

definition float_is_nan :: "float \<Rightarrow> bool" where
  "float_is_nan x \<longleftrightarrow> x AND 0x7F800000 = 0x7F800000 \<and> x AND 0x007FFFFF \<noteq> 0"

definition float_is_inf :: "float \<Rightarrow> bool" where
  "float_is_inf x \<longleftrightarrow> x AND 0x7FFFFFFF = 0x7F800000"

text \<open>The sign-magnitude pattern as an integer; both zeros have key 0.\<close>

definition float_key :: "float \<Rightarrow> int" where
  "float_key x = (if bit x 31 then - uint (x AND 0x7FFFFFFF) else uint x)"

definition float_lt :: "float \<Rightarrow> float \<Rightarrow> bool" where
  "float_lt x y \<longleftrightarrow> \<not> float_is_nan x \<and> \<not> float_is_nan y \<and> float_key x < float_key y"

definition float_gt :: "float \<Rightarrow> float \<Rightarrow> bool" where
  "float_gt x y \<longleftrightarrow> float_lt y x"

definition float_le :: "float \<Rightarrow> float \<Rightarrow> bool" where
  "float_le x y \<longleftrightarrow> \<not> float_is_nan x \<and> \<not> float_is_nan y \<and> float_key x \<le> float_key y"

definition float_eq :: "float \<Rightarrow> float \<Rightarrow> bool" where
  "float_eq x y \<longleftrightarrow> \<not> float_is_nan x \<and> \<not> float_is_nan y \<and> float_key x = float_key y"

definition double_is_nan :: "double \<Rightarrow> bool" where
  "double_is_nan x \<longleftrightarrow>
     x AND 0x7FF0000000000000 = 0x7FF0000000000000 \<and> x AND 0x000FFFFFFFFFFFFF \<noteq> 0"

definition double_key :: "double \<Rightarrow> int" where
  "double_key x = (if bit x 63 then - uint (x AND 0x7FFFFFFFFFFFFFFF) else uint x)"

definition double_gt :: "double \<Rightarrow> double \<Rightarrow> bool" where
  "double_gt x y \<longleftrightarrow> \<not> double_is_nan x \<and> \<not> double_is_nan y \<and> double_key y < double_key x"

text \<open>
  Modelled from the spec: the type \<^verbatim>\<open>float_complex\<close> is declared in \<^verbatim>\<open>saf_complex.h\<close>, which
  is not among the sources. The specification has a complex scalar as ``a pair of real
  components (real, imaginary)'': the pair of two \<^verbatim>\<open>float\<close> patterns, eight bytes.
\<close>

type_synonym float_complex = "float \<times> float"

text \<open>
  Modelled from the spec: \<^verbatim>\<open>crealf\<close> reaches the source through \<^verbatim>\<open>saf_complex.h\<close> as well;
  it reads the real component of the pair.
\<close>

definition crealf :: "float_complex \<Rightarrow> float" where
  "crealf z = fst z"

text \<open>
  The macro \<^verbatim>\<open>cmplxf\<close> of \<^verbatim>\<open>saf_complex.h\<close>, which builds a complex number from two
  \<^verbatim>\<open>float\<close>s, is not modelled: the one function that uses it, \<open>utility_ceig\<close>, takes it
  as a parameter.
\<close>

section \<open>Machine integers\<close>

text \<open>
  Dimensions, lengths and indices are \<^verbatim>\<open>int\<close> in the source and never negative here:
  natural numbers. The eigenvalue and singular value drivers compute the number of
  elements of a matrix as a product of two \<^verbatim>\<open>int\<close>s before they allocate or clear it;
  a product above \<^verbatim>\<open>INT_MAX\<close> is undefined behaviour, a fault of the model. The index
  expressions of their loops stay below a product that was computed in this way. The
  pseudo-inverse drivers are only run on matrices of one or two elements below and keep
  the plain product.
\<close>

definition INT_MAX :: nat where
  "INT_MAX = 2147483647"

definition int_mul :: "nat \<Rightarrow> nat \<Rightarrow> nat option" where
  "int_mul a b = (if a * b \<le> INT_MAX then Some (a * b) else None)"

section \<open>Memory: pointers, loads, stores, loops\<close>

text \<open>
  A pointer argument is \<open>NULL\<close> or points to a buffer of known contents. A computation
  returns \<open>None\<close> when the C program would dereference \<open>NULL\<close> or leave the buffer.
\<close>

datatype 'a ptr = NULL | Ptr "'a list"

definition load :: "'a ptr \<Rightarrow> nat \<Rightarrow> 'a option" where
  "load p i = (case p of NULL \<Rightarrow> None
               | Ptr buf \<Rightarrow> if i < length buf then Some (buf ! i) else None)"

definition store :: "'a ptr \<Rightarrow> nat \<Rightarrow> 'a \<Rightarrow> 'a ptr option" where
  "store p i v = (case p of NULL \<Rightarrow> None
                  | Ptr buf \<Rightarrow> if i < length buf then Some (Ptr (buf[i := v])) else None)"

text \<open>\<^verbatim>\<open>for (i = lo; i < n; i++) body\<close>, stopping at the first fault.\<close>

function for_loop :: "nat \<Rightarrow> nat \<Rightarrow> (nat \<Rightarrow> 's \<Rightarrow> 's option) \<Rightarrow> 's \<Rightarrow> 's option" where
  "for_loop i n body s =
     (if i < n then (case body i s of None \<Rightarrow> None | Some s' \<Rightarrow> for_loop (Suc i) n body s')
      else Some s)"
  by pat_completeness auto
termination
  by (relation "measure (\<lambda>(i, n, body, s). n - i)") auto

declare for_loop.simps [simp del]

text \<open>
  Uninitialised storage holds whatever was there before: the values of a \<^verbatim>\<open>float\<close>,
  \<^verbatim>\<open>double\<close> or \<^verbatim>\<open>int\<close> cell that nobody has written yet are parameters of the model.
  \<^verbatim>\<open>malloc\<close> is taken to succeed (the source never checks its result).
\<close>

record uninit =
  u_float :: float
  u_double :: double
  u_int :: nat
  u_info :: int

definition malloc :: "'a \<Rightarrow> nat \<Rightarrow> 'a ptr" where
  "malloc x n = Ptr (replicate n x)"

text \<open>
  Where the program can read a block before anybody wrote to it, the block comes from
  \<open>malloc_cells\<close>: cell \<open>i\<close> holds \<open>g i\<close>, any value at all, each cell its own.
\<close>

definition malloc_cells :: "(nat \<Rightarrow> 'a) \<Rightarrow> nat \<Rightarrow> 'a ptr" where
  "malloc_cells g n = Ptr (map g [0..<n])"

definition deref :: "'a ptr \<Rightarrow> 'a list option" where
  "deref p = (case p of NULL \<Rightarrow> None | Ptr buf \<Rightarrow> Some buf)"

text \<open>
  A backend routine that was handed the buffer \<open>p\<close> leaves \<open>new\<close> in it. It cannot
  change the size of the buffer.
\<close>

definition backend_wrote :: "'a ptr \<Rightarrow> 'a list \<Rightarrow> 'a ptr option" where
  "backend_wrote p new =
     (case p of NULL \<Rightarrow> None
      | Ptr old \<Rightarrow> if length new = length old then Some (Ptr new) else None)"

subsection \<open>Bytes of a scalar and \<^verbatim>\<open>memset\<close>\<close>

text \<open>Little-endian layout, as on the platforms the library is built for.\<close>

definition word_bytes :: "'a::len word \<Rightarrow> byte list" where
  "word_bytes w = map (\<lambda>k. ucast (drop_bit (8 * k) w)) [0..<LENGTH('a) div 8]"

definition bytes_word :: "byte list \<Rightarrow> 'a::len word" where
  "bytes_word bs = foldr (\<lambda>b w. ucast b OR push_bit 8 w) bs 0"

definition complex_bytes :: "float_complex \<Rightarrow> byte list" where
  "complex_bytes z = word_bytes (fst z) @ word_bytes (snd z)"

definition bytes_complex :: "byte list \<Rightarrow> float_complex" where
  "bytes_complex bs = (bytes_word (take 4 bs), bytes_word (drop 4 bs))"

definition buf_bytes :: "('a \<Rightarrow> byte list) \<Rightarrow> 'a list \<Rightarrow> byte list" where
  "buf_bytes enc buf = concat (map enc buf)"

definition bytes_buf :: "(byte list \<Rightarrow> 'a) \<Rightarrow> nat \<Rightarrow> byte list \<Rightarrow> 'a list" where
  "bytes_buf dec esz bs = map (\<lambda>i. dec (take esz (drop (i * esz) bs))) [0..<length bs div esz]"

text \<open>
  \<^verbatim>\<open>memset(p, c, n)\<close> on a buffer whose elements take \<open>esz\<close> bytes each: the first \<open>n\<close>
  bytes become \<open>c\<close>, the others stay.
\<close>

definition memset ::
  "('a \<Rightarrow> byte list) \<Rightarrow> (byte list \<Rightarrow> 'a) \<Rightarrow> nat \<Rightarrow> 'a ptr \<Rightarrow> byte \<Rightarrow> nat \<Rightarrow> 'a ptr option" where
  "memset enc dec esz p c n =
     (case p of NULL \<Rightarrow> None
      | Ptr buf \<Rightarrow>
          let bs = buf_bytes enc buf
          in if n \<le> length bs then Some (Ptr (bytes_buf dec esz (replicate n c @ drop n bs)))
             else None)"

definition sizeof_float :: nat where "sizeof_float = 4"
definition sizeof_double :: nat where "sizeof_double = 8"
definition sizeof_float_complex :: nat where "sizeof_float_complex = 8"

definition memset_float :: "float ptr \<Rightarrow> byte \<Rightarrow> nat \<Rightarrow> float ptr option" where
  "memset_float = memset word_bytes bytes_word sizeof_float"

definition memset_double :: "double ptr \<Rightarrow> byte \<Rightarrow> nat \<Rightarrow> double ptr option" where
  "memset_double = memset word_bytes bytes_word sizeof_double"

definition memset_complex :: "float_complex ptr \<Rightarrow> byte \<Rightarrow> nat \<Rightarrow> float_complex ptr option" where
  "memset_complex = memset complex_bytes bytes_complex sizeof_float_complex"

section \<open>Build configuration\<close>

text \<open>The preprocessor symbols the source branches on.\<close>

record build =
  ACCELERATE :: bool
  APPLE :: bool
  INTEL_MKL_VERSION :: bool

section \<open>Vector primitives\<close>

text \<open>
  The backend's vector kernels (\<^verbatim>\<open>vDSP_vmul\<close>, \<^verbatim>\<open>vsMul\<close>, \<^verbatim>\<open>vDSP_vsmul\<close>, \<^verbatim>\<open>cblas_sscal\<close>,
  \<^verbatim>\<open>cblas_scopy\<close>, \<^verbatim>\<open>vDSP_vsdiv\<close>) by their documented contracts, with unit strides as the
  source calls them. They read and write through the pointers they are given.
\<close>

definition cblas_scopy :: "nat \<Rightarrow> 'a ptr \<Rightarrow> 'a ptr \<Rightarrow> 'a ptr option" where
  "cblas_scopy n x y = for_loop 0 n (\<lambda>i y. do { v \<leftarrow> load x i; store y i v }) y"

definition memcpy :: "'a ptr \<Rightarrow> 'a ptr \<Rightarrow> nat \<Rightarrow> 'a ptr option" where
  "memcpy dst src n = for_loop 0 n (\<lambda>i d. do { v \<leftarrow> load src i; store d i v }) dst"

definition vDSP_vmul ::
  "('a \<Rightarrow> 'a \<Rightarrow> 'a) \<Rightarrow> 'a ptr \<Rightarrow> 'a ptr \<Rightarrow> 'a ptr \<Rightarrow> nat \<Rightarrow> 'a ptr option" where
  "vDSP_vmul fmul a b c n =
     for_loop 0 n (\<lambda>i c. do { x \<leftarrow> load a i; y \<leftarrow> load b i; store c i (fmul x y) }) c"

definition vsMul ::
  "('a \<Rightarrow> 'a \<Rightarrow> 'a) \<Rightarrow> nat \<Rightarrow> 'a ptr \<Rightarrow> 'a ptr \<Rightarrow> 'a ptr \<Rightarrow> 'a ptr option" where
  "vsMul fmul n a b r =
     for_loop 0 n (\<lambda>i r. do { x \<leftarrow> load a i; y \<leftarrow> load b i; store r i (fmul x y) }) r"

definition vDSP_vsmul ::
  "('a \<Rightarrow> 'a \<Rightarrow> 'a) \<Rightarrow> 'a ptr \<Rightarrow> 'a ptr \<Rightarrow> 'a ptr \<Rightarrow> nat \<Rightarrow> 'a ptr option" where
  "vDSP_vsmul fmul a s c n =
     for_loop 0 n (\<lambda>i c. do { x \<leftarrow> load a i; y \<leftarrow> load s 0; store c i (fmul x y) }) c"

definition vDSP_vsdiv ::
  "('a \<Rightarrow> 'a \<Rightarrow> 'a) \<Rightarrow> 'a ptr \<Rightarrow> 'a ptr \<Rightarrow> 'a ptr \<Rightarrow> nat \<Rightarrow> 'a ptr option" where
  "vDSP_vsdiv fdiv a s c n =
     for_loop 0 n (\<lambda>i c. do { x \<leftarrow> load a i; y \<leftarrow> load s 0; store c i (fdiv x y) }) c"

text \<open>\<^verbatim>\<open>cblas_sscal(n, alpha, &x[off], 1)\<close>: scales \<open>n\<close> elements of \<open>x\<close> from \<open>off\<close> on, in place.\<close>

definition cblas_scal ::
  "('a \<Rightarrow> 'a \<Rightarrow> 'a) \<Rightarrow> nat \<Rightarrow> 'a \<Rightarrow> 'a ptr \<Rightarrow> nat \<Rightarrow> 'a ptr option" where
  "cblas_scal fmul n alpha x off =
     for_loop 0 n (\<lambda>i x. do { v \<leftarrow> load x (off + i); store x (off + i) (fmul alpha v) }) x"

definition utility_svvcopy :: "build \<Rightarrow> float ptr \<Rightarrow> nat \<Rightarrow> float ptr \<Rightarrow> float ptr option" where
  "utility_svvcopy cfg a len c =
     (if ACCELERATE cfg \<or> INTEL_MKL_VERSION cfg then cblas_scopy len a c
      else memcpy c a len)"

text \<open>Each primitive returns the buffers it may write: the first input \<open>a\<close> and the output \<open>c\<close>.\<close>

definition utility_svvmul ::
  "build \<Rightarrow> (float \<Rightarrow> float \<Rightarrow> float) \<Rightarrow> uninit \<Rightarrow>
   float ptr \<Rightarrow> float ptr \<Rightarrow> nat \<Rightarrow> float ptr \<Rightarrow> (float ptr \<times> float ptr) option" where
  "utility_svvmul cfg fmul u a b len c =
     (if ACCELERATE cfg then
        (if c = NULL then do {
           tmp \<leftarrow> vDSP_vmul fmul a b (malloc (u_float u) len) len;
           a' \<leftarrow> utility_svvcopy cfg tmp len a;
           Some (a', c) }
         else do { c' \<leftarrow> vDSP_vmul fmul a b c len; Some (a, c') })
      else if INTEL_MKL_VERSION cfg then do { c' \<leftarrow> vsMul fmul len a b c; Some (a, c') }
      else do {
        c' \<leftarrow> for_loop 0 len
               (\<lambda>i c. do { x \<leftarrow> load a i; y \<leftarrow> load b i; store c i (fmul x y) }) c;
        Some (a, c') })"

definition utility_svsmul ::
  "build \<Rightarrow> (float \<Rightarrow> float \<Rightarrow> float) \<Rightarrow>
   float ptr \<Rightarrow> float ptr \<Rightarrow> nat \<Rightarrow> float ptr \<Rightarrow> (float ptr \<times> float ptr) option" where
  "utility_svsmul cfg fmul a s len c =
     (if ACCELERATE cfg then
        (if c = NULL then do {
           s0 \<leftarrow> load s 0; a' \<leftarrow> cblas_scal fmul len s0 a 0; Some (a', c) }
         else do { c' \<leftarrow> vDSP_vsmul fmul a s c len; Some (a, c') })
      else if INTEL_MKL_VERSION cfg then
        (if c = NULL then do {
           s0 \<leftarrow> load s 0; a' \<leftarrow> cblas_scal fmul len s0 a 0; Some (a', c) }
         else do {
           c1 \<leftarrow> memcpy c a len;
           s0 \<leftarrow> load s 0;
           c' \<leftarrow> cblas_scal fmul len s0 c1 0;
           Some (a, c') })
      else do {
        c' \<leftarrow> for_loop 0 len
               (\<lambda>i c. do { x \<leftarrow> load a i; y \<leftarrow> load s 0; store c i (fmul x y) }) c;
        Some (a, c') })"

definition utility_svsdiv ::
  "build \<Rightarrow> (float \<Rightarrow> float \<Rightarrow> float) \<Rightarrow>
   float ptr \<Rightarrow> float ptr \<Rightarrow> nat \<Rightarrow> float ptr \<Rightarrow> float ptr option" where
  "utility_svsdiv cfg fdiv a s len c = do {
     s0 \<leftarrow> load s 0;
     if float_eq s0 0 then memset_float c 0 (len * sizeof_float)
     else if ACCELERATE cfg then vDSP_vsdiv fdiv a s c len
     else for_loop 0 len (\<lambda>i c. do { x \<leftarrow> load a i; y \<leftarrow> load s 0; store c i (fdiv x y) }) c }"

section \<open>Sorting\<close>

record sort_float =
  val :: float
  idx :: nat

definition cmp_asc_float :: "sort_float \<Rightarrow> sort_float \<Rightarrow> int" where
  "cmp_asc_float a1 a2 =
     (if float_lt (val a1) (val a2) then - 1
      else if float_gt (val a1) (val a2) then 1
      else 0)"

definition cmp_desc_float :: "sort_float \<Rightarrow> sort_float \<Rightarrow> int" where
  "cmp_desc_float a1 a2 =
     (if float_gt (val a1) (val a2) then - 1
      else if float_lt (val a1) (val a2) then 1
      else 0)"

text \<open>
  \<^verbatim>\<open>qsort\<close> is the C library's; the model takes it as a parameter \<open>qs\<close> that maps a
  comparator and the array contents to the reordered contents.
\<close>

type_synonym 'a qsort_fn = "('a \<Rightarrow> 'a \<Rightarrow> int) \<Rightarrow> 'a list \<Rightarrow> 'a list"

definition qsort :: "'a qsort_fn \<Rightarrow> 'a ptr \<Rightarrow> nat \<Rightarrow> ('a \<Rightarrow> 'a \<Rightarrow> int) \<Rightarrow> 'a ptr option" where
  "qsort qs base n cmp =
     (case base of NULL \<Rightarrow> None
      | Ptr buf \<Rightarrow> if n \<le> length buf then backend_wrote (Ptr buf) (qs cmp (take n buf) @ drop n buf)
                 else None)"

text \<open>
  What is taken for granted of \<^verbatim>\<open>qsort\<close>. It only moves the elements of the array, so the
  result is a rearrangement of the input whatever the comparator answers. When the
  comparator orders the elements consistently, no element of the result compares greater
  than a later one (the promise of the C standard). Nothing is promised about the order
  of elements that compare equal, and nothing about the order when the comparator is not
  consistent, as these comparators are on an array with a NaN.
\<close>

definition cmp_consistent :: "('a \<Rightarrow> 'a \<Rightarrow> int) \<Rightarrow> 'a set \<Rightarrow> bool" where
  "cmp_consistent cmp S \<longleftrightarrow>
     (\<forall>x\<in>S. \<forall>y\<in>S. (cmp x y < 0 \<longleftrightarrow> 0 < cmp y x) \<and> (cmp x y = 0 \<longleftrightarrow> cmp y x = 0)) \<and>
     (\<forall>x\<in>S. \<forall>y\<in>S. \<forall>z\<in>S. cmp x y \<le> 0 \<and> cmp y z \<le> 0 \<longrightarrow> cmp x z \<le> 0)"

definition qsort_contract :: "'a qsort_fn \<Rightarrow> bool" where
  "qsort_contract qs \<longleftrightarrow>
     (\<forall>cmp xs. mset (qs cmp xs) = mset xs) \<and>
     (\<forall>cmp xs. cmp_consistent cmp (set xs) \<longrightarrow> sorted_wrt (\<lambda>x y. cmp x y \<le> 0) (qs cmp xs))"

text \<open>An insertion sort by comparator: one function that honours the contract.\<close>

fun insert_by :: "('a \<Rightarrow> 'a \<Rightarrow> int) \<Rightarrow> 'a \<Rightarrow> 'a list \<Rightarrow> 'a list" where
  "insert_by cmp x [] = [x]"
| "insert_by cmp x (y # ys) = (if cmp x y \<le> 0 then x # y # ys else y # insert_by cmp x ys)"

definition isort_by :: "'a qsort_fn" where
  "isort_by cmp xs = foldr (insert_by cmp) xs []"

definition sortf ::
  "uninit \<Rightarrow> sort_float qsort_fn \<Rightarrow> float ptr \<Rightarrow> float ptr \<Rightarrow> nat ptr \<Rightarrow> nat \<Rightarrow> int \<Rightarrow>
   (float ptr \<times> float ptr \<times> nat ptr) option" where
  "sortf u qs in_vec out_vec new_idices len descendFLAG = do {
     data \<leftarrow> for_loop 0 len
               (\<lambda>i data. do { v \<leftarrow> load in_vec i; store data i \<lparr>val = v, idx = i\<rparr> })
               (malloc \<lparr>val = u_float u, idx = u_int u\<rparr> len);
     data \<leftarrow> (if descendFLAG \<noteq> 0 then qsort qs data len cmp_desc_float
              else qsort qs data len cmp_asc_float);
     for_loop 0 len
       (\<lambda>i (in_vec, out_vec, new_idices). do {
          d \<leftarrow> load data i;
          (in_vec, out_vec) \<leftarrow>
            (if out_vec \<noteq> NULL then do { ov \<leftarrow> store out_vec i (val d); Some (in_vec, ov) }
             else do { iv \<leftarrow> store in_vec i (val d); Some (iv, out_vec) });
          new_idices \<leftarrow> (if new_idices \<noteq> NULL then store new_idices i (idx d)
                         else Some new_idices);
          Some (in_vec, out_vec, new_idices) })
       (in_vec, out_vec, new_idices) }"

text \<open>
  A buffer after its first elements were overwritten with \<open>xs\<close>; nothing is written
  through \<open>NULL\<close>.
\<close>

definition overwritten :: "'a ptr \<Rightarrow> 'a list \<Rightarrow> 'a ptr" where
  "overwritten p xs = (case p of NULL \<Rightarrow> NULL | Ptr buf \<Rightarrow> Ptr (xs @ drop (length xs) buf))"

text \<open>
  Two values of a pointer argument, before and after a call: \<open>NULL\<close> stays \<open>NULL\<close>, a buffer
  stays a buffer of its size.
\<close>

definition same_shape :: "'a ptr \<Rightarrow> 'a ptr \<Rightarrow> bool" where
  "same_shape p q =
     (case p of NULL \<Rightarrow> q = NULL
      | Ptr a \<Rightarrow> (case q of NULL \<Rightarrow> False | Ptr b \<Rightarrow> length b = length a))"

section \<open>Decomposition drivers\<close>

text \<open>
  The LAPACK and BLAS kernels are parameters. A kernel gets the arguments the source passes
  (dimensions, flags, the column-major input) and returns what it leaves in each buffer,
  with its status \<open>info\<close>. The workspace query and the workspace buffer stay inside the
  kernel, except in \<open>utility_ssvd\<close> below, where allocation is tracked.
\<close>

definition MIN_of :: "nat \<Rightarrow> nat \<Rightarrow> nat" where
  "MIN_of a b = (if a < b then a else b)"

text \<open>
  The column-major layout of a row-major \<open>rows \<times> cols\<close> matrix: what the drivers hand to
  the backend. Position \<open>j * rows + i\<close> holds the entry of row \<open>i\<close> and column \<open>j\<close>.
\<close>

definition col_major :: "nat \<Rightarrow> nat \<Rightarrow> 'a list \<Rightarrow> 'a list" where
  "col_major rows cols A = map (\<lambda>k. A ! ((k mod rows) * cols + k div rows)) [0..<rows * cols]"

subsection \<open>Symmetric eigendecomposition\<close>

record syev_out =
  ev_a :: "float list"
  ev_w :: "float list"
  ev_info :: int

type_synonym ssyev_fn = "string \<Rightarrow> string \<Rightarrow> nat \<Rightarrow> float list \<Rightarrow> nat \<Rightarrow> syev_out"

definition utility_sseig ::
  "ssyev_fn \<Rightarrow> uninit \<Rightarrow> float ptr \<Rightarrow> nat \<Rightarrow> int \<Rightarrow> float ptr \<Rightarrow> float ptr \<Rightarrow>
   (float ptr \<times> float ptr) option" where
  "utility_sseig ssyev u A dim sortDecFLAG V D = do {
     let w = malloc (u_float u) dim;
     sz \<leftarrow> int_mul dim dim;
     let a = malloc (u_float u) sz;
     a \<leftarrow> for_loop 0 dim
            (\<lambda>i a. for_loop 0 dim
               (\<lambda>j a. do { x \<leftarrow> load A (j * dim + i); store a (i * dim + j) x }) a)
            a;
     abuf \<leftarrow> deref a;
     let r = ssyev ''Vectors'' ''Upper'' dim abuf dim;
     a \<leftarrow> backend_wrote a (ev_a r);
     w \<leftarrow> backend_wrote w (ev_w r);
     sz \<leftarrow> int_mul dim dim;
     D \<leftarrow> memset_float D 0 (sz * sizeof_float);
     if ev_info r > 0 then do {
       sz \<leftarrow> int_mul dim dim;
       V \<leftarrow> memset_float V 0 (sz * sizeof_float);
       Some (V, D) }
     else if sortDecFLAG \<noteq> 0 then
       for_loop 0 dim
         (\<lambda>i (V, D). do {
            V \<leftarrow> for_loop 0 dim
                   (\<lambda>j V. do { x \<leftarrow> load a ((dim - j - 1) * dim + i); store V (i * dim + j) x }) V;
            x \<leftarrow> load w (dim - i - 1);
            D \<leftarrow> store D (i * dim + i) x;
            Some (V, D) })
         (V, D)
     else
       for_loop 0 dim
         (\<lambda>i (V, D). do {
            V \<leftarrow> for_loop 0 dim
                   (\<lambda>j V. do { x \<leftarrow> load a (j * dim + i); store V (i * dim + j) x }) V;
            x \<leftarrow> load w i;
            D \<leftarrow> store D (i * dim + i) x;
            Some (V, D) })
         (V, D) }"

subsection \<open>General eigendecomposition\<close>

record geev_out =
  gv_w :: "float_complex list"
  gv_vl :: "float_complex list"
  gv_vr :: "float_complex list"
  gv_info :: int

type_synonym cgeev_fn =
  "string \<Rightarrow> string \<Rightarrow> nat \<Rightarrow> float_complex list \<Rightarrow> nat \<Rightarrow> nat \<Rightarrow> nat \<Rightarrow> geev_out"

text \<open>
  \<open>cgeev_\<close> is called under \<open>__APPLE__\<close> or \<open>INTEL_MKL_VERSION\<close> only; in any other build
  \<open>w\<close>, \<open>vl\<close>, \<open>vr\<close> and \<open>info\<close> are never written and keep what they held. \<open>cgeev_call\<close> is
  what these four hold after the conditional block, given what they held before it.
\<close>

definition cgeev_call ::
  "build \<Rightarrow> cgeev_fn \<Rightarrow> nat \<Rightarrow> float_complex list \<Rightarrow>
   float_complex list \<Rightarrow> float_complex list \<Rightarrow> float_complex list \<Rightarrow> int \<Rightarrow> geev_out" where
  "cgeev_call cfg cgeev dim abuf w0 vl0 vr0 info0 =
     (if APPLE cfg \<or> INTEL_MKL_VERSION cfg then cgeev ''Vectors'' ''Vectors'' dim abuf dim dim dim
      else \<lparr>gv_w = w0, gv_vl = vl0, gv_vr = vr0, gv_info = info0\<rparr>)"

text \<open>
  What the freshly allocated \<open>w\<close>, \<open>vl\<close> and \<open>vr\<close> hold, cell by cell: parameters of the
  model, like the values of \<open>uninit\<close>.
\<close>

record geev_uninit =
  un_w :: "nat \<Rightarrow> float_complex"
  un_vl :: "nat \<Rightarrow> float_complex"
  un_vr :: "nat \<Rightarrow> float_complex"

text \<open>
  \<open>cmplxf\<close> is the macro of \<^verbatim>\<open>saf_complex.h\<close>, a parameter. The workspace \<open>rwork\<close> of
  \<open>2 * dim\<close> elements is used by the kernel alone; only its size is computed here.
\<close>

definition utility_ceig ::
  "build \<Rightarrow> cgeev_fn \<Rightarrow> (float \<Rightarrow> float \<Rightarrow> float_complex) \<Rightarrow> sort_float qsort_fn \<Rightarrow>
   uninit \<Rightarrow> geev_uninit \<Rightarrow> float_complex ptr \<Rightarrow> nat \<Rightarrow> int \<Rightarrow>
   float_complex ptr \<Rightarrow> float_complex ptr \<Rightarrow> float_complex ptr \<Rightarrow>
   (float_complex ptr \<times> float_complex ptr \<times> float_complex ptr) option" where
  "utility_ceig cfg cgeev cmplxf qs u g A dim sortDecFLAG VL VR D = do {
     rwork_sz \<leftarrow> int_mul 2 dim;
     let w = malloc_cells (un_w g) dim;
     sz \<leftarrow> int_mul dim dim;
     let vl = malloc_cells (un_vl g) sz;
     sz \<leftarrow> int_mul dim dim;
     let vr = malloc_cells (un_vr g) sz;
     sz \<leftarrow> int_mul dim dim;
     let a = malloc (u_float u, u_float u) sz;
     a \<leftarrow> for_loop 0 dim
            (\<lambda>i a. for_loop 0 dim
               (\<lambda>j a. do { x \<leftarrow> load A (j * dim + i); store a (i * dim + j) x }) a)
            a;
     abuf \<leftarrow> deref a;
     w0 \<leftarrow> deref w;
     vl0 \<leftarrow> deref vl;
     vr0 \<leftarrow> deref vr;
     let r = cgeev_call cfg cgeev dim abuf w0 vl0 vr0 (u_info u);
     w \<leftarrow> backend_wrote w (gv_w r);
     vl \<leftarrow> backend_wrote vl (gv_vl r);
     vr \<leftarrow> backend_wrote vr (gv_vr r);
     let info = gv_info r;
     wr \<leftarrow> for_loop 0 dim
             (\<lambda>i wr. do { z \<leftarrow> load w i; store wr i (crealf z) })
             (malloc (u_float u) dim);
     (wr, _, sort_idx) \<leftarrow> sortf u qs wr NULL (malloc (u_int u) dim) dim sortDecFLAG;
     D \<leftarrow> (if D \<noteq> NULL then do { sz \<leftarrow> int_mul dim dim;
                                  memset_complex D 0 (sz * sizeof_float_complex) }
          else Some D);
     if info > 0 then do {
       VL \<leftarrow> (if VL \<noteq> NULL then do { sz \<leftarrow> int_mul dim dim;
                                      memset_complex VL 0 (sz * sizeof_float_complex) }
              else Some VL);
       VR \<leftarrow> (if VR \<noteq> NULL then do { sz \<leftarrow> int_mul dim dim;
                                      memset_complex VR 0 (sz * sizeof_float_complex) }
              else Some VR);
       Some (VL, VR, D) }
     else
       for_loop 0 dim
         (\<lambda>i (VL, VR, D). do {
            VL \<leftarrow> (if VL \<noteq> NULL then
                     for_loop 0 dim
                       (\<lambda>j VL. do { k \<leftarrow> load sort_idx j;
                                   x \<leftarrow> load vl (k * dim + i);
                                   store VL (i * dim + j) x }) VL
                   else Some VL);
            VR \<leftarrow> (if VR \<noteq> NULL then
                     for_loop 0 dim
                       (\<lambda>j VR. do { k \<leftarrow> load sort_idx j;
                                   x \<leftarrow> load vr (k * dim + i);
                                   store VR (i * dim + j) x }) VR
                   else Some VR);
            D \<leftarrow> (if D \<noteq> NULL then do { x \<leftarrow> load wr i; store D (i * dim + i) (cmplxf x 0) }
                  else Some D);
            Some (VL, VR, D) })
         (VL, VR, D) }"

subsection \<open>Pseudo-inverse\<close>

record 'f gesvd_out =
  sv_a :: "'f list"
  sv_s :: "'f list"
  sv_u :: "'f list"
  sv_vt :: "'f list"
  sv_info :: int

type_synonym 'f gesvd_fn =
  "string \<Rightarrow> string \<Rightarrow> nat \<Rightarrow> nat \<Rightarrow> 'f list \<Rightarrow> nat \<Rightarrow> nat \<Rightarrow> nat \<Rightarrow> 'f gesvd_out"

datatype CBLAS_ORDER = CblasRowMajor | CblasColMajor
datatype CBLAS_TRANSPOSE = CblasNoTrans | CblasTrans | CblasConjTrans

type_synonym 'f gemm_fn =
  "CBLAS_ORDER \<Rightarrow> CBLAS_TRANSPOSE \<Rightarrow> CBLAS_TRANSPOSE \<Rightarrow> nat \<Rightarrow> nat \<Rightarrow> nat \<Rightarrow>
   'f \<Rightarrow> 'f list \<Rightarrow> nat \<Rightarrow> 'f list \<Rightarrow> nat \<Rightarrow> 'f \<Rightarrow> 'f list \<Rightarrow> nat \<Rightarrow> 'f list"

text \<open>The literals of the source as bit patterns.\<close>

definition float_1 :: float where "float_1 = 0x3F800000"                  \<comment> \<open>\<^verbatim>\<open>1.0f\<close>\<close>
definition float_1em5 :: float where "float_1em5 = 0x3727C5AC"            \<comment> \<open>\<^verbatim>\<open>1.0e-5f\<close>\<close>
definition double_of_1f :: double where "double_of_1f = 0x3FF0000000000000"  \<comment> \<open>\<^verbatim>\<open>1.0f\<close> widened\<close>
definition double_of_1em9f :: double where
  "double_of_1em9f = 0x3E112E0BE0000000"  \<comment> \<open>\<^verbatim>\<open>1.0e-9f\<close>, a \<^verbatim>\<open>float\<close> literal, widened\<close>
definition double_1em9 :: double where
  "double_1em9 = 0x3E112E0BE826D695"  \<comment> \<open>the \<^verbatim>\<open>double\<close> nearest to \<open>10\<^sup>-\<^sup>9\<close>\<close>

definition utility_spinv ::
  "float gesvd_fn \<Rightarrow> float gemm_fn \<Rightarrow> (float \<Rightarrow> float \<Rightarrow> float) \<Rightarrow> (float \<Rightarrow> float \<Rightarrow> float) \<Rightarrow>
   uninit \<Rightarrow> float ptr \<Rightarrow> nat \<Rightarrow> nat \<Rightarrow> float ptr \<Rightarrow> float ptr option" where
  "utility_spinv sgesvd sgemm fmul fdiv un inM dim1 dim2 outM = do {
     let m = dim1; let n = dim2; let k = (if m < n then m else n);
     a \<leftarrow> for_loop 0 m
            (\<lambda>i a. for_loop 0 n
               (\<lambda>j a. do { x \<leftarrow> load inM (i * n + j); store a (j * m + i) x }) a)
            (malloc (u_float un) (m * n));
     abuf \<leftarrow> deref a;
     let r = sgesvd ''S'' ''S'' m n abuf m m k;
     s \<leftarrow> backend_wrote (malloc (u_float un) k) (sv_s r);
     u \<leftarrow> backend_wrote (malloc (u_float un) (m * k)) (sv_u r);
     vt \<leftarrow> backend_wrote (malloc (u_float un) (k * n)) (sv_vt r);
     if sv_info r > 0 then memset_float outM 0 (dim1 * dim2 * sizeof_float)
     else do {
       u \<leftarrow> for_loop 0 k
              (\<lambda>i u. do {
                 si \<leftarrow> load s i;
                 let ss = (if float_gt si float_1em5 then fdiv float_1 si else si);
                 cblas_scal fmul m ss u (i * m) })
              u;
       ubuf \<leftarrow> deref u;
       vtbuf \<leftarrow> deref vt;
       inva \<leftarrow> backend_wrote (malloc (u_float un) (n * m))
                 (sgemm CblasColMajor CblasTrans CblasTrans n m k float_1 vtbuf k ubuf m 0
                    (replicate (n * m) (u_float un)) n);
       for_loop 0 m
         (\<lambda>i outM. for_loop 0 n
            (\<lambda>j outM. do { x \<leftarrow> load inva (i * n + j); store outM (j * m + i) x }) outM)
         outM } }"

definition utility_dpinv ::
  "double gesvd_fn \<Rightarrow> double gemm_fn \<Rightarrow> (double \<Rightarrow> double \<Rightarrow> double) \<Rightarrow>
   (double \<Rightarrow> double \<Rightarrow> double) \<Rightarrow>
   uninit \<Rightarrow> double ptr \<Rightarrow> nat \<Rightarrow> nat \<Rightarrow> double ptr \<Rightarrow> double ptr option" where
  "utility_dpinv dgesvd dgemm dmul ddiv un inM dim1 dim2 outM = do {
     let m = dim1; let n = dim2; let k = (if m < n then m else n);
     a \<leftarrow> for_loop 0 m
            (\<lambda>i a. for_loop 0 n
               (\<lambda>j a. do { x \<leftarrow> load inM (i * n + j); store a (j * m + i) x }) a)
            (malloc (u_double un) (m * n));
     abuf \<leftarrow> deref a;
     let r = dgesvd ''S'' ''S'' m n abuf m m k;
     s \<leftarrow> backend_wrote (malloc (u_double un) k) (sv_s r);
     u \<leftarrow> backend_wrote (malloc (u_double un) (m * k)) (sv_u r);
     vt \<leftarrow> backend_wrote (malloc (u_double un) (k * n)) (sv_vt r);
     if sv_info r > 0 then memset_double outM 0 (dim1 * dim2 * sizeof_float)
     else do {
       u \<leftarrow> for_loop 0 k
              (\<lambda>i u. do {
                 si \<leftarrow> load s i;
                 let ss = (if double_gt si double_of_1em9f then ddiv double_of_1f si else si);
                 cblas_scal dmul m ss u (i * m) })
              u;
       ubuf \<leftarrow> deref u;
       vtbuf \<leftarrow> deref vt;
       inva \<leftarrow> backend_wrote (malloc (u_double un) (n * m))
                 (dgemm CblasColMajor CblasTrans CblasTrans n m k double_of_1f vtbuf k ubuf m 0
                    (replicate (n * m) (u_double un)) n);
       for_loop 0 m
         (\<lambda>i outM. for_loop 0 n
            (\<lambda>j outM. do { x \<leftarrow> load inva (i * n + j); store outM (j * m + i) x }) outM)
         outM } }"

subsection \<open>Singular value decomposition\<close>

text \<open>
  \<open>utility_ssvd\<close> frees and allocates the caller's \<open>*U\<close>, \<open>*S\<close>, \<open>*V\<close>, so it runs on a heap:
  a map from block addresses to block contents and the address \<^verbatim>\<open>malloc\<close> hands out next.
  A pointer into the heap is \<open>None\<close> (\<open>NULL\<close>) or the address of a block.
\<close>

record heap =
  blocks :: "nat \<rightharpoonup> float list"
  brk :: nat

definition hmalloc :: "float \<Rightarrow> nat \<Rightarrow> heap \<Rightarrow> nat \<times> heap" where
  "hmalloc x n h =
     (brk h, h\<lparr>blocks := (blocks h)(brk h \<mapsto> replicate n x), brk := Suc (brk h)\<rparr>)"

definition hcalloc :: "nat \<Rightarrow> heap \<Rightarrow> nat \<times> heap" where
  "hcalloc n h = hmalloc 0 n h"

text \<open>\<^verbatim>\<open>free(NULL)\<close> does nothing; freeing what is not an allocated block is a fault.\<close>

definition hfree :: "nat option \<Rightarrow> heap \<Rightarrow> heap option" where
  "hfree p h =
     (case p of None \<Rightarrow> Some h
      | Some a \<Rightarrow> if a \<in> dom (blocks h) then Some (h\<lparr>blocks := (blocks h)(a := None)\<rparr>)
                  else None)"

definition hload :: "heap \<Rightarrow> nat \<Rightarrow> nat \<Rightarrow> float option" where
  "hload h a i = (case blocks h a of None \<Rightarrow> None
                  | Some b \<Rightarrow> if i < length b then Some (b ! i) else None)"

definition hstore :: "nat \<Rightarrow> nat \<Rightarrow> float \<Rightarrow> heap \<Rightarrow> heap option" where
  "hstore a i v h = (case blocks h a of None \<Rightarrow> None
                     | Some b \<Rightarrow> if i < length b then Some (h\<lparr>blocks := (blocks h)(a \<mapsto> b[i := v])\<rparr>)
                                 else None)"

definition hblock :: "heap \<Rightarrow> nat \<Rightarrow> float list option" where
  "hblock h a = blocks h a"

definition hbackend_wrote :: "nat \<Rightarrow> float list \<Rightarrow> heap \<Rightarrow> heap option" where
  "hbackend_wrote a new h =
     (case blocks h a of None \<Rightarrow> None
      | Some old \<Rightarrow> if length new = length old then Some (h\<lparr>blocks := (blocks h)(a \<mapsto> new)\<rparr>)
                    else None)"

text \<open>
  What a caller has to provide: every allocated block lies below \<open>brk\<close>, and a pointer
  handed over to be freed is \<open>NULL\<close> or the address of an allocated block.
\<close>

definition heap_ok :: "heap \<Rightarrow> bool" where
  "heap_ok h \<longleftrightarrow> (\<forall>a\<in>dom (blocks h). a < brk h)"

definition freeable :: "heap \<Rightarrow> nat option \<Rightarrow> bool" where
  "freeable h p \<longleftrightarrow> (case p of None \<Rightarrow> True | Some a \<Rightarrow> a \<in> dom (blocks h))"

text \<open>
  \<open>lwork\<close> is the workspace size the query call reports. The result is the new values of
  \<open>*U\<close>, \<open>*S\<close>, \<open>*V\<close> and the heap.
\<close>

definition utility_ssvd ::
  "float gesvd_fn \<Rightarrow> nat \<Rightarrow> uninit \<Rightarrow> float ptr \<Rightarrow> nat \<Rightarrow> nat \<Rightarrow>
   nat option \<Rightarrow> nat option \<Rightarrow> nat option \<Rightarrow> heap \<Rightarrow>
   (nat option \<times> nat option \<times> nat option \<times> heap) option" where
  "utility_ssvd sgesvd lwork un A dim1 dim2 U S V h0 = do {
     let m = dim1; let n = dim2; let lda = dim1; let ldu = dim1; let ldvt = dim2;
     sz \<leftarrow> int_mul lda n;
     let (a, h) = hmalloc (u_float un) sz h0;
     let (s, h) = hmalloc (u_float un) (MIN_of n m) h;
     sz \<leftarrow> int_mul ldu m;
     let (u, h) = hmalloc (u_float un) sz h;
     sz \<leftarrow> int_mul ldvt n;
     let (vt, h) = hmalloc (u_float un) sz h;
     h \<leftarrow> for_loop 0 dim1
            (\<lambda>i h. for_loop 0 dim2
               (\<lambda>j h. do { x \<leftarrow> load A (i * dim2 + j); hstore a (j * dim1 + i) x h }) h)
            h;
     abuf \<leftarrow> hblock h a;
     let (work, h) = hmalloc (u_float un) lwork h;
     let r = sgesvd ''A'' ''A'' m n abuf lda ldu ldvt;
     h \<leftarrow> hbackend_wrote a (sv_a r) h;
     h \<leftarrow> hbackend_wrote s (sv_s r) h;
     h \<leftarrow> hbackend_wrote u (sv_u r) h;
     h \<leftarrow> hbackend_wrote vt (sv_vt r) h;
     h \<leftarrow> hfree U h;
     h \<leftarrow> hfree S h;
     h \<leftarrow> hfree V h;
     (U, S, V, h) \<leftarrow>
       (if sv_info r > 0 then Some (None, None, None, h)
        else do {
          sz \<leftarrow> int_mul dim1 dim1;
          let (U, h) = hmalloc (u_float un) sz h;
          sz \<leftarrow> int_mul dim1 dim2;
          let (S, h) = hcalloc sz h;
          sz \<leftarrow> int_mul dim2 dim2;
          let (V, h) = hmalloc (u_float un) sz h;
          h \<leftarrow> for_loop 0 dim1
                 (\<lambda>i h. for_loop 0 dim1
                    (\<lambda>j h. do { x \<leftarrow> hload h u (j * dim1 + i); hstore U (i * dim1 + j) x h }) h)
                 h;
          h \<leftarrow> for_loop 0 (MIN_of dim1 dim2)
                 (\<lambda>i h. do { x \<leftarrow> hload h s i; hstore S (i * dim2 + i) x h })
                 h;
          h \<leftarrow> for_loop 0 dim2
                 (\<lambda>i h. for_loop 0 dim2
                    (\<lambda>j h. do { x \<leftarrow> hload h vt (i * dim2 + j); hstore V (i * dim2 + j) x h }) h)
                 h;
          Some (Some U, Some S, Some V, h) });
     h \<leftarrow> hfree (Some a) h;
     h \<leftarrow> hfree (Some s) h;
     h \<leftarrow> hfree (Some u) h;
     h \<leftarrow> hfree (Some vt) h;
     h \<leftarrow> hfree (Some work) h;
     Some (U, S, V, h) }"

section \<open>Loops and memory: basic facts\<close>

lemma for_loop_rule:
  assumes "I lo s" and "lo \<le> hi"
    and "\<And>i s. lo \<le> i \<Longrightarrow> i < hi \<Longrightarrow> I i s \<Longrightarrow> \<exists>s'. body i s = Some s' \<and> I (Suc i) s'"
  shows "\<exists>s'. for_loop lo hi body s = Some s' \<and> I hi s'"
  using assms
proof (induction "hi - lo" arbitrary: lo s)
  case 0
  then show ?case by (simp add: for_loop.simps)
next
  case (Suc k)
  then have lt: "lo < hi" by simp
  from Suc.prems(3) [of lo s] lt Suc.prems(1)
  obtain s1 where s1: "body lo s = Some s1" "I (Suc lo) s1" by auto
  have "\<exists>s'. for_loop (Suc lo) hi body s1 = Some s' \<and> I hi s'"
  proof (rule Suc.hyps(1))
    show "k = hi - Suc lo" using Suc.hyps(2) by simp
    show "I (Suc lo) s1" by (rule s1)
    show "Suc lo \<le> hi" using lt by simp
    show "\<And>i s. Suc lo \<le> i \<Longrightarrow> i < hi \<Longrightarrow> I i s \<Longrightarrow> \<exists>s'. body i s = Some s' \<and> I (Suc i) s'"
      using Suc.prems(3) by simp
  qed
  then show ?case using lt s1 by (subst for_loop.simps) simp
qed

lemma for_loop_empty: "hi \<le> lo \<Longrightarrow> for_loop lo hi body s = Some s"
  by (simp add: for_loop.simps)

lemma bytes_word_Nil: "bytes_word [] = 0" by (simp add: bytes_word_def)
lemma bytes_word_Cons: "bytes_word (b # bs) = ucast b OR push_bit 8 (bytes_word bs)" by (simp add: bytes_word_def)

lemma bit_bytes_word:
  "bit (bytes_word bs :: 'a::len word) n \<longleftrightarrow>
     n < LENGTH('a) \<and> n div 8 < length bs \<and> bit (bs ! (n div 8)) (n mod 8)"
proof (induction bs arbitrary: n)
  case Nil
  show ?case by (simp add: bytes_word_Nil)
next
  case (Cons b bs)
  show ?case
  proof (cases "n < 8")
    case True
    then show ?thesis by (simp add: bytes_word_Cons bit_simps)
  next
    case False
    then have n8: "8 \<le> n" by simp
    then have d: "n div 8 = Suc ((n - 8) div 8)" and m: "(n - 8) mod 8 = n mod 8"
      by (simp_all add: le_div_geq le_mod_geq)
    have "bit (bytes_word (b # bs) :: 'a word) n \<longleftrightarrow> n < LENGTH('a) \<and> bit (bytes_word bs :: 'a word) (n - 8)"
      using False n8 by (auto simp add: bytes_word_Cons bit_simps dest: bit_imp_le_length)
    also have "\<dots> \<longleftrightarrow> n < LENGTH('a) \<and> (n - 8) div 8 < length bs \<and> bit (bs ! ((n - 8) div 8)) (n mod 8)"
      using Cons.IH [of "n - 8"] m by auto
    finally show ?thesis by (simp add: d)
  qed
qed

lemma length_word_bytes: "length (word_bytes (w::'a::len word)) = LENGTH('a) div 8"
  by (simp add: word_bytes_def)

lemma bytes_word_word_bytes:
  assumes "8 dvd LENGTH('a::len)"
  shows "bytes_word (word_bytes (w::'a word)) = w"
proof (rule bit_word_eqI)
  fix n assume n: "n < LENGTH('a)"
  from assms obtain q where q: "LENGTH('a) = 8 * q" by (auto simp: dvd_def)
  have dv: "n div 8 < LENGTH('a) div 8" using n q by (simp add: less_mult_imp_div_less mult.commute)
  have "8 * (n div 8) + n mod 8 = n" by simp
  then show "bit (bytes_word (word_bytes w) :: 'a word) n = bit w n"
    using n dv by (simp add: bit_bytes_word length_word_bytes word_bytes_def bit_simps)
qed

lemma bytes_word_zeros: "bytes_word (replicate n 0) = (0::'a::len word)"
  by (induction n) (simp_all add: bytes_word_def)

text \<open>Decoding a byte string made of whole elements.\<close>

lemma bytes_buf_concat:
  assumes "0 < esz" and "\<forall>c \<in> set cs. length c = esz"
  shows "bytes_buf dec esz (concat cs) = map dec cs"
proof -
  have len: "length (concat cs) = length cs * esz"
    using assms(2) by (induction cs) simp_all
  have chunk: "take esz (drop (i * esz) (concat cs)) = cs ! i" if "i < length cs" for i
    using that assms(2)
  proof (induction cs arbitrary: i)
    case Nil then show ?case by simp
  next
    case (Cons c cs)
    show ?case
    proof (cases i)
      case 0 then show ?thesis using Cons.prems by simp
    next
      case (Suc k)
      then show ?thesis using Cons by simp
    qed
  qed
  show ?thesis
    unfolding bytes_buf_def len using assms(1)
    by (auto intro!: nth_equalityI simp: chunk)
qed

lemma drop_concat_uniform:
  assumes "\<forall>c \<in> set cs. length c = esz"
  shows "drop (k * esz) (concat cs) = concat (drop k cs)"
  using assms
proof (induction cs arbitrary: k)
  case Nil then show ?case by simp
next
  case (Cons c cs)
  then show ?case by (cases k) simp_all
qed

lemma memset_zero_elems:
  assumes enc_len: "\<And>x. length (enc x) = esz" and dec_enc: "\<And>x. dec (enc x) = x"
    and z: "dec (replicate esz 0) = zero" and esz: "0 < esz" and k: "k \<le> length buf"
  shows "memset enc dec esz (Ptr buf) 0 (k * esz) = Some (Ptr (replicate k zero @ drop k buf))"
proof -
  let ?bs = "buf_bytes enc buf"
  have len: "length ?bs = length buf * esz"
    unfolding buf_bytes_def using enc_len by (induction buf) simp_all
  have le: "k * esz \<le> length ?bs" using k len by simp
  have dr: "drop (k * esz) ?bs = concat (map enc (drop k buf))"
    unfolding buf_bytes_def by (simp add: drop_concat_uniform enc_len drop_map)
  have rp: "replicate (k * esz) (0::byte) = concat (replicate k (replicate esz 0))"
    by (induction k) (simp_all add: replicate_add)
  have "bytes_buf dec esz (replicate (k * esz) 0 @ drop (k * esz) ?bs)
        = bytes_buf dec esz (concat (replicate k (replicate esz 0) @ map enc (drop k buf)))"
    by (simp add: dr rp)
  also have "\<dots> = map dec (replicate k (replicate esz 0) @ map enc (drop k buf))"
    by (rule bytes_buf_concat) (auto simp: esz enc_len)
  also have "\<dots> = replicate k zero @ drop k buf"
    by (simp add: z dec_enc map_replicate_const [symmetric] comp_def del: map_replicate_const)
  finally show ?thesis using le by (simp add: memset_def Let_def)
qed

lemma memset_float_zero:
  "k \<le> length buf \<Longrightarrow> memset_float (Ptr buf) 0 (k * sizeof_float) = Some (Ptr (replicate k 0 @ drop k buf))"
  unfolding memset_float_def sizeof_float_def
  by (rule memset_zero_elems) (simp_all add: length_word_bytes bytes_word_word_bytes bytes_word_zeros)

lemma memset_double_zero:
  "k \<le> length buf \<Longrightarrow> memset_double (Ptr buf) 0 (k * sizeof_double) = Some (Ptr (replicate k 0 @ drop k buf))"
  unfolding memset_double_def sizeof_double_def
  by (rule memset_zero_elems) (simp_all add: length_word_bytes bytes_word_word_bytes bytes_word_zeros)

lemma memset_complex_zero:
  "k \<le> length buf \<Longrightarrow>
   memset_complex (Ptr buf) 0 (k * sizeof_float_complex) = Some (Ptr (replicate k (0, 0) @ drop k buf))"
  unfolding memset_complex_def sizeof_float_complex_def
  by (rule memset_zero_elems)
     (simp_all add: complex_bytes_def bytes_complex_def length_word_bytes bytes_word_word_bytes
        bytes_word_zeros)


lemma load_Ptr: "load (Ptr buf) i = (if i < length buf then Some (buf ! i) else None)"
  by (simp add: load_def)

lemma store_Ptr:
  "store (Ptr buf) i v = (if i < length buf then Some (Ptr (buf[i := v])) else None)"
  by (simp add: store_def)

lemma load_NULL [simp]: "load NULL i = None" by (simp add: load_def)
lemma store_NULL [simp]: "store NULL i v = None" by (simp add: store_def)

lemmas ptr_simps = load_Ptr store_Ptr

lemma map_upt_update:
  assumes "i < length cbuf"
  shows "(map g [0..<i] @ drop i cbuf)[i := v] = map g [0..<i] @ v # drop (Suc i) cbuf"
proof -
  have "drop i cbuf = cbuf ! i # drop (Suc i) cbuf"
    using assms by (simp add: Cons_nth_drop_Suc)
  then show ?thesis by (simp add: list_update_append)
qed

lemma for_loop_map:
  assumes n: "n \<le> length cbuf"
    and body: "\<And>i c. i < n \<Longrightarrow> length c = length cbuf \<Longrightarrow> body i (Ptr c) = store (Ptr c) i (g i)"
  shows "for_loop 0 n body (Ptr cbuf) = Some (Ptr (map g [0..<n] @ drop n cbuf))"
proof -
  let ?I = "\<lambda>i c. c = Ptr (map g [0..<i] @ drop i cbuf)"
  have "\<exists>s'. for_loop 0 n body (Ptr cbuf) = Some s' \<and> ?I n s'"
  proof (rule for_loop_rule [where I = ?I])
    show "?I 0 (Ptr cbuf)" by simp
    show "0 \<le> n" by simp
    fix i s assume i: "i < n" and s: "?I i s"
    have il: "i < length cbuf" using i n by simp
    have "body i s = store s i (g i)"
      unfolding s using i n by (intro body) simp_all
    then show "\<exists>s'. body i s = Some s' \<and> ?I (Suc i) s'"
      using il by (simp add: s map_upt_update ptr_simps)
  qed
  then show ?thesis by auto
qed

lemma for_loop_NULL_fault:
  assumes "lo < hi" and "body lo NULL = None"
  shows "for_loop lo hi body NULL = None"
  using assms by (subst for_loop.simps) simp


subsection \<open>Matrix indices\<close>

lemma idx_range: "i < n1 \<Longrightarrow> j < n2 \<Longrightarrow> i * n2 + j < n1 * (n2::nat)"
proof -
  assume i: "i < n1" and j: "j < n2"
  have "i * n2 + j < i * n2 + n2" using j by simp
  also have "\<dots> = Suc i * n2" by simp
  also have "\<dots> \<le> n1 * n2" using i by (intro mult_le_mono1) simp
  finally show ?thesis .
qed

lemma idx_inj:
  assumes "j < n2" and "j' < n2" and "i * n2 + j = i' * n2 + (j'::nat)"
  shows "i = i' \<and> j = j'"
proof -
  have "(i * n2 + j) div n2 = i" "(i * n2 + j) mod n2 = j"
    "(i' * n2 + j') div n2 = i'" "(i' * n2 + j') mod n2 = j'"
    using assms(1,2) by simp_all
  then show ?thesis using assms(3) by metis
qed

lemma idx_decompose: "k < n1 * n2 \<Longrightarrow> k div n2 < n1 \<and> k mod n2 < (n2::nat)"
  by (metis less_mult_imp_div_less mod_less_divisor mult_0_right not_gr_zero not_less_zero)

subsection \<open>Two nested loops that fill a buffer\<close>

lemma nested_store_loops:
  assumes body: "\<And>i j d. i < n1 \<Longrightarrow> j < n2 \<Longrightarrow> length d = length dbuf \<Longrightarrow>
                   body i j (Ptr d) = store (Ptr d) (didx i j) (g i j)"
    and rng: "\<And>i j. i < n1 \<Longrightarrow> j < n2 \<Longrightarrow> didx i j < length dbuf"
    and inj: "\<And>i j i' j'. i < n1 \<Longrightarrow> j < n2 \<Longrightarrow> i' < n1 \<Longrightarrow> j' < n2 \<Longrightarrow>
                   didx i j = didx i' j' \<Longrightarrow> i = i' \<and> j = j'"
  shows "\<exists>d'. for_loop 0 n1 (\<lambda>i d. for_loop 0 n2 (body i) d) (Ptr dbuf) = Some (Ptr d')
           \<and> length d' = length dbuf
           \<and> (\<forall>i<n1. \<forall>j<n2. d' ! didx i j = g i j)
           \<and> (\<forall>k<length dbuf. (\<forall>i<n1. \<forall>j<n2. didx i j \<noteq> k) \<longrightarrow> d' ! k = dbuf ! k)"
proof -
  define W where "W = (\<lambda>(i::nat) (j::nat) (i'::nat) (j'::nat). j' < n2 \<and> (i' < i \<or> (i' = i \<and> j' < j)))"
  define P where "P = (\<lambda>i j s. \<exists>d. s = Ptr d \<and> length d = length dbuf
      \<and> (\<forall>i' j'. W i j i' j' \<longrightarrow> d ! didx i' j' = g i' j')
      \<and> (\<forall>k<length dbuf. (\<forall>i' j'. W i j i' j' \<longrightarrow> didx i' j' \<noteq> k) \<longrightarrow> d ! k = dbuf ! k))"
  have step: "\<exists>s'. body i j s = Some s' \<and> P i (Suc j) s'"
    if "i < n1" "j < n2" "P i j s" for i j s
  proof -
    from that(3) obtain d where d: "s = Ptr d" "length d = length dbuf"
      "\<forall>i' j'. W i j i' j' \<longrightarrow> d ! didx i' j' = g i' j'"
      "\<forall>k<length dbuf. (\<forall>i' j'. W i j i' j' \<longrightarrow> didx i' j' \<noteq> k) \<longrightarrow> d ! k = dbuf ! k"
      unfolding P_def by blast
    have r: "didx i j < length d" using rng that d(2) by simp
    have b: "body i j s = Some (Ptr (d[didx i j := g i j]))"
      using body [OF that(1,2) d(2)] r by (simp add: d(1) store_Ptr)
    have W_Suc: "W i (Suc j) i' j' \<longleftrightarrow> W i j i' j' \<or> (i' = i \<and> j' = j)" for i' j'
      using that(2) unfolding W_def by auto
    have W_lt: "W i j i' j' \<Longrightarrow> i' < n1 \<and> j' < n2 \<and> didx i' j' \<noteq> didx i j" for i' j'
      using that(1,2) inj [of i' j' i j] unfolding W_def by auto
    have "P i (Suc j) (Ptr (d[didx i j := g i j]))"
      unfolding P_def
    proof (intro exI conjI allI impI)
      show "Ptr (d[didx i j := g i j]) = Ptr (d[didx i j := g i j])" by simp
      show "length (d[didx i j := g i j]) = length dbuf" using d(2) by simp
    next
      fix i' j' assume "W i (Suc j) i' j'"
      then consider "W i j i' j'" | "i' = i \<and> j' = j" using W_Suc by blast
      then show "d[didx i j := g i j] ! didx i' j' = g i' j'"
      proof cases
        case 1
        then have "didx i' j' \<noteq> didx i j" "d ! didx i' j' = g i' j'"
          using W_lt d(3) by blast+
        then show ?thesis by (simp add: nth_list_update)
      next
        case 2
        then show ?thesis using r by simp
      qed
    next
      fix k assume k: "k < length dbuf" and un: "\<forall>i' j'. W i (Suc j) i' j' \<longrightarrow> didx i' j' \<noteq> k"
      then have "didx i j \<noteq> k" and "\<forall>i' j'. W i j i' j' \<longrightarrow> didx i' j' \<noteq> k"
        using W_Suc by auto
      then show "d[didx i j := g i j] ! k = dbuf ! k"
        using d(4) k by (simp add: nth_list_update)
    qed
    with b show ?thesis by blast
  qed
  have row: "\<exists>s'. for_loop 0 n2 (body i) s = Some s' \<and> P (Suc i) 0 s'"
    if "i < n1" "P i 0 s" for i s
  proof -
    have "\<exists>s'. for_loop 0 n2 (body i) s = Some s' \<and> P i n2 s'"
      by (rule for_loop_rule [where I = "P i"]) (use that step in auto)
    moreover have "W i n2 = W (Suc i) 0"
      unfolding W_def by (intro ext) auto
    then have "P i n2 = P (Suc i) 0"
      unfolding P_def by simp
    ultimately show ?thesis by simp
  qed
  have "\<exists>s'. for_loop 0 n1 (\<lambda>i d. for_loop 0 n2 (body i) d) (Ptr dbuf) = Some s' \<and> P n1 0 s'"
  proof (rule for_loop_rule [where I = "\<lambda>i. P i 0"])
    show "P 0 0 (Ptr dbuf)" unfolding P_def W_def by simp
  qed (use row in auto)
  then obtain d' where d': "for_loop 0 n1 (\<lambda>i d. for_loop 0 n2 (body i) d) (Ptr dbuf) = Some (Ptr d')"
      "length d' = length dbuf"
      "\<forall>i' j'. W n1 0 i' j' \<longrightarrow> d' ! didx i' j' = g i' j'"
      "\<forall>k<length dbuf. (\<forall>i' j'. W n1 0 i' j' \<longrightarrow> didx i' j' \<noteq> k) \<longrightarrow> d' ! k = dbuf ! k"
    unfolding P_def by blast
  have W_all: "W n1 0 i' j' \<longleftrightarrow> i' < n1 \<and> j' < n2" for i' j'
    unfolding W_def by auto
  show ?thesis
    using d' unfolding W_all by blast
qed

lemma store_loop:
  assumes body: "\<And>j d. j < n \<Longrightarrow> length d = length dbuf \<Longrightarrow>
                   body j (Ptr d) = store (Ptr d) (didx j) (g j)"
    and rng: "\<And>j. j < n \<Longrightarrow> didx j < length dbuf"
    and inj: "\<And>j j'. j < n \<Longrightarrow> j' < n \<Longrightarrow> didx j = didx j' \<Longrightarrow> j = j'"
  shows "\<exists>d'. for_loop 0 n body (Ptr dbuf) = Some (Ptr d')
           \<and> length d' = length dbuf
           \<and> (\<forall>j<n. d' ! didx j = g j)
           \<and> (\<forall>k<length dbuf. (\<forall>j<n. didx j \<noteq> k) \<longrightarrow> d' ! k = dbuf ! k)"
proof -
  have "\<exists>d'. for_loop 0 1 (\<lambda>i d. for_loop 0 n body d) (Ptr dbuf) = Some (Ptr d')
           \<and> length d' = length dbuf
           \<and> (\<forall>i<(1::nat). \<forall>j<n. d' ! didx j = g j)
           \<and> (\<forall>k<length dbuf. (\<forall>i<(1::nat). \<forall>j<n. didx j \<noteq> k) \<longrightarrow> d' ! k = dbuf ! k)"
  proof (rule nested_store_loops [where body = "\<lambda>i. body" and didx = "\<lambda>i. didx" and g = "\<lambda>i. g"
        and ?n1.0 = 1 and ?n2.0 = n and dbuf = dbuf])
    fix j d assume "j < n" "length (d::'a list) = length dbuf"
    then show "body j (Ptr d) = store (Ptr d) (didx j) (g j)" by (rule body)
  next
    fix j assume "j < n"
    then show "didx j < length dbuf" by (rule rng)
  next
    fix i j i' j' assume "i < (1::nat)" "i' < (1::nat)" "j < n" "j' < n" "didx j = didx j'"
    then show "i = i' \<and> j = j'" using inj [of j j'] by simp
  qed
  moreover have "for_loop 0 1 (\<lambda>i d. for_loop 0 n body d) (Ptr dbuf) = for_loop 0 n body (Ptr dbuf)"
    by (simp add: for_loop.simps [of 0 "Suc 0"] for_loop.simps [of "Suc 0" "Suc 0"]
          split: option.splits)
  ultimately show ?thesis by simp
qed

lemma length_col_major [simp]: "length (col_major m n A) = m * n"
  by (simp add: col_major_def)

text \<open>The loops that store a row-major matrix in column-major order.\<close>

lemma to_col_major_loops:
  assumes "length A = m * n" and "length a0 = m * n"
  shows "for_loop 0 m
           (\<lambda>i a. for_loop 0 n
              (\<lambda>j a. do { x \<leftarrow> load (Ptr A) (i * n + j); store a (j * m + i) x }) a)
           (Ptr a0)
         = Some (Ptr (col_major m n A))"
proof -
  have "\<exists>d'. for_loop 0 m (\<lambda>i d. for_loop 0 n
           ((\<lambda>i j a. do { x \<leftarrow> load (Ptr A) (i * n + j); store a (j * m + i) x }) i) d) (Ptr a0)
          = Some (Ptr d')
        \<and> length d' = length a0
        \<and> (\<forall>i<m. \<forall>j<n. d' ! (j * m + i) = A ! (i * n + j))
        \<and> (\<forall>k<length a0. (\<forall>i<m. \<forall>j<n. j * m + i \<noteq> k) \<longrightarrow> d' ! k = a0 ! k)"
  proof (rule nested_store_loops)
    fix i j d assume "i < m" "j < n" "length (d::'a list) = length a0"
    then show "(do { x \<leftarrow> load (Ptr A) (i * n + j); store (Ptr d) (j * m + i) x })
                 = store (Ptr d) (j * m + i) (A ! (i * n + j))"
      using assms idx_range [of i m j n] by (simp add: load_Ptr)
  next
    fix i j assume "i < m" "j < n"
    then show "j * m + i < length a0" using assms idx_range [of j n i m] by (simp add: mult.commute)
  next
    fix i j i' j' assume "i < m" "j < n" "i' < m" "j' < n" "j * m + i = j' * m + i'"
    then show "i = i' \<and> j = j'" using idx_inj [of i m i' j j'] by simp
  qed
  then obtain d' where d': "for_loop 0 m (\<lambda>i a. for_loop 0 n
           (\<lambda>j a. do { x \<leftarrow> load (Ptr A) (i * n + j); store a (j * m + i) x }) a) (Ptr a0)
          = Some (Ptr d')" "length d' = m * n" "\<forall>i<m. \<forall>j<n. d' ! (j * m + i) = A ! (i * n + j)"
    using assms by auto
  have "d' = col_major m n A"
  proof (rule nth_equalityI)
    show "length d' = length (col_major m n A)" by (simp add: d'(2) col_major_def)
    fix k assume "k < length d'"
    then have k: "k < n * m" by (simp add: d'(2) mult.commute)
    then have "k div m < n" "k mod m < m" using idx_decompose [of k n m] by simp_all
    then have "d' ! ((k div m) * m + k mod m) = A ! ((k mod m) * n + k div m)"
      using d'(3) [rule_format, of "k mod m" "k div m"] by blast
    moreover have "(k div m) * m + k mod m = k" by simp
    ultimately show "d' ! k = col_major m n A ! k"
      using k by (simp add: col_major_def mult.commute)
  qed
  then show ?thesis using d'(1) by simp
qed

text \<open>A row-major matrix is determined by its entries.\<close>

lemma matrix_eqI:
  assumes "length M = n1 * n2" and "\<forall>i<n1. \<forall>j<n2. M ! (i * n2 + j) = f i j"
  shows "M = map (\<lambda>k. f (k div n2) (k mod n2)) [0..<n1 * n2]"
proof (rule nth_equalityI)
  show "length M = length (map (\<lambda>k. f (k div n2) (k mod n2)) [0..<n1 * n2])"
    using assms(1) by simp
  fix k assume "k < length M"
  then have k: "k < n1 * n2" using assms(1) by simp
  then have "k div n2 < n1" "k mod n2 < n2" using idx_decompose [of k n1 n2] by simp_all
  then have "M ! ((k div n2) * n2 + k mod n2) = f (k div n2) (k mod n2)"
    using assms(2) by blast
  moreover have "(k div n2) * n2 + k mod n2 = k" by simp
  ultimately show "M ! k = map (\<lambda>k. f (k div n2) (k mod n2)) [0..<n1 * n2] ! k"
    using k by simp
qed

lemma upt_4: "[0..<4] = [0, 1, 2, 3]"
  by (simp add: upt_rec)

subsection \<open>Products of \<^verbatim>\<open>int\<close>\<close>

lemma int_mul_ok:
  assumes "a * b \<le> INT_MAX"
  shows "int_mul a b = Some (a * b)"
  using assms by (simp add: int_mul_def)

lemma int_mul_overflow:
  assumes "INT_MAX < a * b"
  shows "int_mul a b = None"
  using assms by (simp add: int_mul_def)

section \<open>Vector primitives\<close>

lemma float_zero_not_special: "\<not> float_is_nan 0 \<and> \<not> float_is_inf 0"
  by (simp add: float_is_nan_def float_is_inf_def)

lemma utility_svsdiv_closed_form:
  assumes "len \<le> length abuf" and "len \<le> length cbuf"
  shows "utility_svsdiv cfg fdiv (Ptr abuf) (Ptr (s0 # srest)) len (Ptr cbuf) =
           Some (Ptr ((if float_eq s0 0 then replicate len 0
                       else map (\<lambda>i. fdiv (abuf ! i) s0) [0..<len]) @ drop len cbuf))"
proof -
  have div: "for_loop 0 len
      (\<lambda>i c. do { x \<leftarrow> load (Ptr abuf) i; y \<leftarrow> load (Ptr (s0 # srest)) 0; store c i (fdiv x y) })
      (Ptr cbuf) = Some (Ptr (map (\<lambda>i. fdiv (abuf ! i) s0) [0..<len] @ drop len cbuf))"
    using assms by (intro for_loop_map) (simp_all add: ptr_simps)
  show ?thesis
    unfolding utility_svsdiv_def vDSP_vsdiv_def div
    using assms by (simp add: memset_float_zero ptr_simps)
qed

text \<open>
  C2. \<open>utility_svsdiv\<close> on an input \<open>a\<close> and an output buffer \<open>c\<close> of at least \<open>len\<close>
  elements, with the scalar \<open>s[0] = s0\<close>: the call returns; when \<open>s0\<close> compares equal to
  zero the \<open>len\<close> output elements are all \<open>+0.0\<close>, none of them a NaN or an infinity; when
  it does not, output element \<open>i\<close> is \<open>a[i] / s0\<close>. Nothing beyond \<open>len\<close> is touched.
\<close>

theorem utility_svsdiv_zero_fill_or_quotient:
  assumes "len \<le> length abuf" and "len \<le> length cbuf"
  shows "\<exists>out. utility_svsdiv cfg fdiv (Ptr abuf) (Ptr (s0 # srest)) len (Ptr cbuf) = Some (Ptr out)
           \<and> length out = length cbuf \<and> drop len out = drop len cbuf
           \<and> (float_eq s0 0 \<longrightarrow>
                 take len out = replicate len 0
                 \<and> (\<forall>x \<in> set (take len out). \<not> float_is_nan x \<and> \<not> float_is_inf x))
           \<and> (\<not> float_eq s0 0 \<longrightarrow> (\<forall>i<len. out ! i = fdiv (abuf ! i) s0))"
  using assms
  by (simp add: utility_svsdiv_closed_form float_zero_not_special nth_append)

theorem utility_svsdiv_zero_fill_or_quotient_witness:
  "utility_svsdiv \<lparr>ACCELERATE = False, APPLE = False, INTEL_MKL_VERSION = False\<rparr> (\<lambda>x y. x - 0x00800000)
     (Ptr [0x3F800000, 0x40000000]) (Ptr [0x80000000]) 2 (Ptr [0x7FC00000, 0x7F800000])
     = Some (Ptr [0, 0])
   \<and> utility_svsdiv \<lparr>ACCELERATE = True, APPLE = True, INTEL_MKL_VERSION = False\<rparr> (\<lambda>x y. x - 0x00800000)
     (Ptr [0x3F800000, 0x40000000]) (Ptr [0x40000000]) 2 (Ptr [0x7FC00000, 0x7F800000])
     = Some (Ptr [0x3F000000, 0x3F800000])"
proof -
  have z: "float_eq 0x80000000 0" and nz: "\<not> float_eq 0x40000000 0"
    by (simp_all add: float_eq_def float_is_nan_def float_key_def)
  obtain out where out: "utility_svsdiv \<lparr>ACCELERATE = False, APPLE = False, INTEL_MKL_VERSION = False\<rparr>
       (\<lambda>x y. x - 0x00800000) (Ptr [0x3F800000, 0x40000000]) (Ptr [0x80000000]) 2 (Ptr [0x7FC00000, 0x7F800000])
       = Some (Ptr out)" "length out = 2" "take 2 out = replicate 2 0"
    using utility_svsdiv_zero_fill_or_quotient
      [of 2 "[0x3F800000, 0x40000000]" "[0x7FC00000, 0x7F800000]"
         "\<lparr>ACCELERATE = False, APPLE = False, INTEL_MKL_VERSION = False\<rparr>" "\<lambda>x y. x - 0x00800000"
         "0x80000000" "[]"] z
    by auto
  obtain out' where out': "utility_svsdiv \<lparr>ACCELERATE = True, APPLE = True, INTEL_MKL_VERSION = False\<rparr>
       (\<lambda>x y. x - 0x00800000) (Ptr [0x3F800000, 0x40000000]) (Ptr [0x40000000]) 2 (Ptr [0x7FC00000, 0x7F800000])
       = Some (Ptr out')" "length out' = 2"
       "\<forall>i<2. out' ! i = ([0x3F800000, 0x40000000] ! i) - (0x00800000 :: float)"
    using utility_svsdiv_zero_fill_or_quotient
      [of 2 "[0x3F800000, 0x40000000]" "[0x7FC00000, 0x7F800000]"
         "\<lparr>ACCELERATE = True, APPLE = True, INTEL_MKL_VERSION = False\<rparr>" "\<lambda>x y. x - 0x00800000"
         "0x40000000" "[]"] nz
    by auto
  have "out = [0, 0]" using out(2,3) by (simp add: numeral_2_eq_2)
  moreover have "out' = [0x3F000000, 0x3F800000]"
  proof (rule nth_equalityI)
    show "length out' = length [0x3F000000, 0x3F800000 :: float]" using out'(2) by simp
    fix i assume "i < length out'"
    then have "i = 0 \<or> i = 1" using out'(2) by auto
    then show "out' ! i = [0x3F000000, 0x3F800000] ! i" using out'(3) by auto
  qed
  ultimately show ?thesis using out(1) out'(1) by simp
qed

subsection \<open>In-place operation when the output pointer is \<open>NULL\<close>\<close>

lemma cblas_scal_closed_form:
  assumes "off + n \<le> length xbuf"
  shows "cblas_scal fmul n alpha (Ptr xbuf) off =
           Some (Ptr (map (\<lambda>k. if off \<le> k \<and> k < off + n then fmul alpha (xbuf ! k) else xbuf ! k)
                        [0..<length xbuf]))"
proof -
  let ?body = "\<lambda>i x. do { v \<leftarrow> load x (off + i); store x (off + i) (fmul alpha v) }"
  let ?I = "\<lambda>i s. \<exists>b. s = Ptr b \<and> length b = length xbuf \<and>
      (\<forall>k<length xbuf. b ! k = (if off \<le> k \<and> k < off + i then fmul alpha (xbuf ! k) else xbuf ! k))"
  have "\<exists>s'. for_loop 0 n ?body (Ptr xbuf) = Some s' \<and> ?I n s'"
  proof (rule for_loop_rule [where I = ?I])
    show "?I 0 (Ptr xbuf)" by auto
    show "0 \<le> n" by simp
    fix i s assume i: "i < n" and s: "?I i s"
    then obtain b where b: "s = Ptr b" "length b = length xbuf"
      "\<forall>k<length xbuf. b ! k = (if off \<le> k \<and> k < off + i then fmul alpha (xbuf ! k) else xbuf ! k)"
      by blast
    have il: "off + i < length xbuf" using i assms by simp
    have "?body i s = Some (Ptr (b[off + i := fmul alpha (xbuf ! (off + i))]))"
      using il b by (simp add: ptr_simps)
    moreover have "?I (Suc i) (Ptr (b[off + i := fmul alpha (xbuf ! (off + i))]))"
      using b il by (auto simp: nth_list_update)
    ultimately show "\<exists>s'. ?body i s = Some s' \<and> ?I (Suc i) s'" by blast
  qed
  then obtain b where b: "for_loop 0 n ?body (Ptr xbuf) = Some (Ptr b)" "length b = length xbuf"
    "\<forall>k<length xbuf. b ! k = (if off \<le> k \<and> k < off + n then fmul alpha (xbuf ! k) else xbuf ! k)"
    by blast
  have "b = map (\<lambda>k. if off \<le> k \<and> k < off + n then fmul alpha (xbuf ! k) else xbuf ! k) [0..<length xbuf]"
    using b(2,3) by (intro nth_equalityI) simp_all
  then show ?thesis using b(1) by (simp add: cblas_scal_def)
qed

lemma mul_loop:
  assumes "len \<le> length abuf" and "len \<le> length bbuf" and "len \<le> length cbuf"
  shows "for_loop 0 len
           (\<lambda>i c. do { x \<leftarrow> load (Ptr abuf) i; y \<leftarrow> load (Ptr bbuf) i; store c i (fmul x y) })
           (Ptr cbuf)
         = Some (Ptr (map (\<lambda>i. fmul (abuf ! i) (bbuf ! i)) [0..<len] @ drop len cbuf))"
  using assms by (intro for_loop_map) (simp_all add: ptr_simps)

lemma copy_loop:
  assumes "len \<le> length sbuf" and "len \<le> length dbuf"
  shows "for_loop 0 len (\<lambda>i d. do { v \<leftarrow> load (Ptr sbuf) i; store d i v }) (Ptr dbuf)
         = Some (Ptr (take len sbuf @ drop len dbuf))"
proof -
  have "for_loop 0 len (\<lambda>i d. do { v \<leftarrow> load (Ptr sbuf) i; store d i v }) (Ptr dbuf)
         = Some (Ptr (map (\<lambda>i. sbuf ! i) [0..<len] @ drop len dbuf))"
    using assms by (intro for_loop_map) (simp_all add: ptr_simps)
  moreover have "map (\<lambda>i. sbuf ! i) [0..<len] = take len sbuf"
    using assms(1) by (intro nth_equalityI) simp_all
  ultimately show ?thesis by simp
qed

lemma utility_svvcopy_closed_form:
  assumes "len \<le> length sbuf" and "len \<le> length dbuf"
  shows "utility_svvcopy cfg (Ptr sbuf) len (Ptr dbuf) = Some (Ptr (take len sbuf @ drop len dbuf))"
  using assms by (simp add: utility_svvcopy_def cblas_scopy_def memcpy_def copy_loop)

text \<open>Under \<open>__ACCELERATE__\<close> both primitives honour a \<open>NULL\<close> output: they work in place.\<close>

lemma utility_svvmul_accelerate_in_place:
  assumes "ACCELERATE cfg" and "len \<le> length abuf" and "len \<le> length bbuf"
  shows "utility_svvmul cfg fmul u (Ptr abuf) (Ptr bbuf) len NULL =
           Some (Ptr (map (\<lambda>i. fmul (abuf ! i) (bbuf ! i)) [0..<len] @ drop len abuf), NULL)"
proof -
  have "vDSP_vmul fmul (Ptr abuf) (Ptr bbuf) (malloc (u_float u) len) len
          = Some (Ptr (map (\<lambda>i. fmul (abuf ! i) (bbuf ! i)) [0..<len]))"
    unfolding vDSP_vmul_def malloc_def using assms by (subst mul_loop) simp_all
  then show ?thesis
    using assms by (simp add: utility_svvmul_def utility_svvcopy_closed_form)
qed

lemma utility_svsmul_backend_in_place:
  assumes "ACCELERATE cfg \<or> INTEL_MKL_VERSION cfg" and "len \<le> length abuf"
  shows "utility_svsmul cfg fmul (Ptr abuf) (Ptr (s0 # srest)) len NULL =
           Some (Ptr (map (\<lambda>i. fmul s0 (abuf ! i)) [0..<len] @ drop len abuf), NULL)"
proof -
  have "map (\<lambda>k. if k < len then fmul s0 (abuf ! k) else abuf ! k) [0..<length abuf]
        = map (\<lambda>i. fmul s0 (abuf ! i)) [0..<len] @ drop len abuf"
    using assms(2) by (intro nth_equalityI) (auto simp: nth_append)
  then show ?thesis
    using assms by (auto simp add: utility_svsmul_def cblas_scal_closed_form ptr_simps)
qed

text \<open>
  C3. The property fails on the code. Without \<open>__ACCELERATE__\<close>, \<open>utility_svvmul\<close> hands a
  \<open>NULL\<close> output to \<open>vsMul\<close> (under \<open>INTEL_MKL_VERSION\<close>) or writes \<open>c[i]\<close> itself; with
  neither symbol, \<open>utility_svsmul\<close> writes \<open>c[i]\<close> too. On vectors of one element the
  calls fault on \<open>NULL\<close> and \<open>a\<close> does not receive the product.
\<close>

theorem null_output_faults_outside_accelerate:
  "utility_svvmul \<lparr>ACCELERATE = False, APPLE = False, INTEL_MKL_VERSION = False\<rparr> fmul u
      (Ptr [0x40000000]) (Ptr [0x40400000]) 1 NULL = None
   \<and> utility_svvmul \<lparr>ACCELERATE = False, APPLE = False, INTEL_MKL_VERSION = True\<rparr> fmul u
      (Ptr [0x40000000]) (Ptr [0x40400000]) 1 NULL = None
   \<and> utility_svsmul \<lparr>ACCELERATE = False, APPLE = False, INTEL_MKL_VERSION = False\<rparr> fmul
      (Ptr [0x40000000]) (Ptr [0x40400000]) 1 NULL = None"
  by (simp add: utility_svvmul_def utility_svsmul_def vsMul_def for_loop.simps)

section \<open>Pseudo-inverse: the non-convergence path\<close>

text \<open>
  In single precision a failed SVD leaves zeros in all \<open>dim2 \<times> dim1\<close> elements of \<open>outM\<close>.
\<close>

lemma utility_spinv_failure_zero_fill:
  assumes "length inbuf = dim1 * dim2" and "length obuf = dim1 * dim2"
    and "r = sgesvd ''S'' ''S'' dim1 dim2 (col_major dim1 dim2 inbuf) dim1 dim1 (min dim1 dim2)"
    and "length (sv_s r) = min dim1 dim2" and "length (sv_u r) = dim1 * min dim1 dim2"
    and "length (sv_vt r) = min dim1 dim2 * dim2"
    and "sv_info r > 0"
  shows "utility_spinv sgesvd sgemm fmul fdiv un (Ptr inbuf) dim1 dim2 (Ptr obuf)
           = Some (Ptr (replicate (dim1 * dim2) 0))"
proof -
  have k: "(if dim1 < dim2 then dim1 else dim2) = min dim1 dim2" by (simp add: min_def)
  have loops: "for_loop 0 dim1
           (\<lambda>i a. for_loop 0 dim2
              (\<lambda>j a. do { x \<leftarrow> load (Ptr inbuf) (i * dim2 + j); store a (j * dim1 + i) x }) a)
           (Ptr (replicate (dim1 * dim2) (u_float un)))
         = Some (Ptr (col_major dim1 dim2 inbuf))"
    using assms(1) by (intro to_col_major_loops) simp_all
  show ?thesis
    unfolding utility_spinv_def Let_def k malloc_def loops
    using assms(2,4-7) assms(3) [symmetric]
    by (simp add: deref_def backend_wrote_def memset_float_zero)
qed

text \<open>
  In double precision the byte count of the \<open>memset\<close> is still \<open>dim1 * dim2 * sizeof(float)\<close>:
  half of the buffer. For an even number of elements the second half keeps its contents.
\<close>

lemma utility_dpinv_failure_half_fill:
  assumes "length inbuf = dim1 * dim2" and "length obuf = dim1 * dim2" and "dim1 * dim2 = 2 * q"
    and "r = dgesvd ''S'' ''S'' dim1 dim2 (col_major dim1 dim2 inbuf) dim1 dim1 (min dim1 dim2)"
    and "length (sv_s r) = min dim1 dim2" and "length (sv_u r) = dim1 * min dim1 dim2"
    and "length (sv_vt r) = min dim1 dim2 * dim2"
    and "sv_info r > 0"
  shows "utility_dpinv dgesvd dgemm dmul ddiv un (Ptr inbuf) dim1 dim2 (Ptr obuf)
           = Some (Ptr (replicate q 0 @ drop q obuf))"
proof -
  have k: "(if dim1 < dim2 then dim1 else dim2) = min dim1 dim2" by (simp add: min_def)
  have loops: "for_loop 0 dim1
           (\<lambda>i a. for_loop 0 dim2
              (\<lambda>j a. do { x \<leftarrow> load (Ptr inbuf) (i * dim2 + j); store a (j * dim1 + i) x }) a)
           (Ptr (replicate (dim1 * dim2) (u_double un)))
         = Some (Ptr (col_major dim1 dim2 inbuf))"
    using assms(1) by (intro to_col_major_loops) simp_all
  have bytes: "dim1 * dim2 * sizeof_float = q * sizeof_double"
    using assms(3) by (simp add: sizeof_float_def sizeof_double_def)
  have "memset_double (Ptr obuf) 0 (dim1 * dim2 * sizeof_float) = Some (Ptr (replicate q 0 @ drop q obuf))"
    unfolding bytes using assms(2,3) by (intro memset_double_zero) simp
  then show ?thesis
    unfolding utility_dpinv_def Let_def k malloc_def loops
    using assms(5-8) assms(4) [symmetric]
    by (simp add: deref_def backend_wrote_def)
qed

text \<open>
  C1. The property fails for \<open>utility_dpinv\<close>. A \<open>1 \<times> 2\<close> input on which the SVD reports
  \<open>info = 1\<close>, with \<open>outM\<close> holding a NaN and \<open>1.0\<close> before the call: the first element
  becomes zero, the second is left as it was.
\<close>

theorem utility_dpinv_failure_leaves_second_half:
  "utility_dpinv
     (\<lambda>jobu jobvt m n a lda ldu ldvt.
        \<lparr>sv_a = a, sv_s = [0], sv_u = [0], sv_vt = [0, 0], sv_info = 1\<rparr>)
     dgemm dmul ddiv un
     (Ptr [0x3FF0000000000000, 0x4000000000000000]) 1 2
     (Ptr [0x7FF8000000000000, 0x3FF0000000000000])
   = Some (Ptr [0, 0x3FF0000000000000])"
  by (subst utility_dpinv_failure_half_fill [where q = 1, OF _ _ _ refl]) simp_all

section \<open>Pseudo-inverse: the reconstruction\<close>

lemma div_in_block: "i * m \<le> p \<Longrightarrow> p < i * m + m \<Longrightarrow> p div m = (i::nat)"
proof -
  assume a: "i * m \<le> p" "p < i * m + m"
  then obtain q where q: "p = i * m + q" "q < m" by (metis add_less_cancel_left le_Suc_ex)
  then show ?thesis by simp
qed

text \<open>
  The loop over the singular values: column \<open>i\<close> of the column-major \<open>u\<close> (the \<open>m\<close>
  elements from \<open>i * m\<close> on) is multiplied by \<open>f (s[i])\<close>.
\<close>

lemma scale_columns_loop:
  assumes "length sbuf = k" and "length ubuf = m * k"
  shows "for_loop 0 k
           (\<lambda>i u. do { si \<leftarrow> load (Ptr sbuf) i; cblas_scal fmul m (f si) u (i * m) })
           (Ptr ubuf)
         = Some (Ptr (map (\<lambda>p. fmul (f (sbuf ! (p div m))) (ubuf ! p)) [0..<m * k]))"
proof -
  let ?body = "\<lambda>i u. do { si \<leftarrow> load (Ptr sbuf) i; cblas_scal fmul m (f si) u (i * m) }"
  let ?I = "\<lambda>i s. \<exists>b. s = Ptr b \<and> length b = m * k \<and>
      (\<forall>p<m * k. b ! p = (if p < i * m then fmul (f (sbuf ! (p div m))) (ubuf ! p) else ubuf ! p))"
  have "\<exists>s'. for_loop 0 k ?body (Ptr ubuf) = Some s' \<and> ?I k s'"
  proof (rule for_loop_rule [where I = ?I])
    show "?I 0 (Ptr ubuf)" using assms by simp
    show "0 \<le> k" by simp
    fix i s assume i: "i < k" and s: "?I i s"
    then obtain b where b: "s = Ptr b" "length b = m * k"
      "\<forall>p<m * k. b ! p = (if p < i * m then fmul (f (sbuf ! (p div m))) (ubuf ! p) else ubuf ! p)"
      by blast
    have "Suc i * m \<le> k * m" using i by (intro mult_le_mono1) simp
    then have fit: "i * m + m \<le> length b" by (simp add: b(2) mult.commute)
    let ?b' = "map (\<lambda>p. if i * m \<le> p \<and> p < i * m + m then fmul (f (sbuf ! i)) (b ! p) else b ! p)
                 [0..<length b]"
    have run: "?body i s = Some (Ptr ?b')"
      using i assms(1) fit by (simp add: b(1) load_Ptr cblas_scal_closed_form)
    have "?I (Suc i) (Ptr ?b')"
    proof (intro exI conjI allI impI)
      show "Ptr ?b' = Ptr ?b'" by simp
      show "length ?b' = m * k" by (simp add: b(2))
      fix p assume p: "p < m * k"
      show "?b' ! p = (if p < Suc i * m then fmul (f (sbuf ! (p div m))) (ubuf ! p) else ubuf ! p)"
      proof (cases "i * m \<le> p \<and> p < i * m + m")
        case True
        then have "p div m = i" by (simp add: div_in_block)
        moreover have "b ! p = ubuf ! p" using b(3) p True by simp
        ultimately show ?thesis using True p by (simp add: b(2))
      next
        case False
        then have "p < Suc i * m \<longleftrightarrow> p < i * m" by auto
        then show ?thesis using False p b(3) by (simp add: b(2))
      qed
    qed
    with run show "\<exists>s'. ?body i s = Some s' \<and> ?I (Suc i) s'" by blast
  qed
  then obtain b where b: "for_loop 0 k ?body (Ptr ubuf) = Some (Ptr b)" "length b = m * k"
    "\<forall>p<m * k. b ! p = (if p < k * m then fmul (f (sbuf ! (p div m))) (ubuf ! p) else ubuf ! p)"
    by blast
  have "b = map (\<lambda>p. fmul (f (sbuf ! (p div m))) (ubuf ! p)) [0..<m * k]"
    using b(2,3) by (intro nth_equalityI) (simp_all add: mult.commute)
  then show ?thesis using b(1) by simp
qed

text \<open>The loops that return the column-major \<open>n \<times> m\<close> product in row-major order.\<close>

lemma from_col_major_loops:
  assumes "length inva = n * m" and "length obuf = m * n"
  shows "\<exists>out. for_loop 0 m
           (\<lambda>i outM. for_loop 0 n
              (\<lambda>j outM. do { x \<leftarrow> load (Ptr inva) (i * n + j); store outM (j * m + i) x }) outM)
           (Ptr obuf) = Some (Ptr out)
         \<and> length out = m * n \<and> (\<forall>i<m. \<forall>j<n. out ! (j * m + i) = inva ! (i * n + j))"
proof -
  have "\<exists>d'. for_loop 0 m (\<lambda>i d. for_loop 0 n
           ((\<lambda>i j outM. do { x \<leftarrow> load (Ptr inva) (i * n + j); store outM (j * m + i) x }) i) d)
           (Ptr obuf) = Some (Ptr d')
        \<and> length d' = length obuf
        \<and> (\<forall>i<m. \<forall>j<n. d' ! (j * m + i) = inva ! (i * n + j))
        \<and> (\<forall>k<length obuf. (\<forall>i<m. \<forall>j<n. j * m + i \<noteq> k) \<longrightarrow> d' ! k = obuf ! k)"
  proof (rule nested_store_loops)
    fix i j d assume "i < m" "j < n" "length (d::'a list) = length obuf"
    then show "(do { x \<leftarrow> load (Ptr inva) (i * n + j); store (Ptr d) (j * m + i) x })
                 = store (Ptr d) (j * m + i) (inva ! (i * n + j))"
      using assms idx_range [of i m j n] by (simp add: load_Ptr mult.commute)
  next
    fix i j assume "i < m" "j < n"
    then show "j * m + i < length obuf" using assms idx_range [of j n i m] by (simp add: mult.commute)
  next
    fix i j i' j' assume "i < m" "j < n" "i' < m" "j' < n" "j * m + i = j' * m + i'"
    then show "i = i' \<and> j = j'" using idx_inj [of i m i' j j'] by simp
  qed
  then show ?thesis using assms(2) by auto
qed

text \<open>
  The success path of both drivers, with the constants as the source has them: each column
  of \<open>u\<close> is scaled by \<open>1 / s\<^sub>i\<close> when \<open>s\<^sub>i\<close> is above the threshold and by \<open>s\<^sub>i\<close> otherwise, the
  backend multiplies \<open>vt\<^sup>T\<close> by the scaled \<open>u\<^sup>T\<close>, and entry \<open>(j, i)\<close> of the row-major \<open>dim2 \<times> dim1\<close>
  output is entry \<open>(j, i)\<close> of that column-major product.
\<close>

lemma utility_spinv_success:
  fixes sgemm :: "float gemm_fn"
  assumes "length inbuf = dim1 * dim2" and "length obuf = dim1 * dim2"
    and "k = min dim1 dim2"
    and "r = sgesvd ''S'' ''S'' dim1 dim2 (col_major dim1 dim2 inbuf) dim1 dim1 k"
    and "length (sv_s r) = k" and "length (sv_u r) = dim1 * k" and "length (sv_vt r) = k * dim2"
    and "\<not> sv_info r > 0"
    and "u' = map (\<lambda>p. fmul (let si = sv_s r ! (p div dim1)
                               in if float_gt si float_1em5 then fdiv float_1 si else si)
                             (sv_u r ! p)) [0..<dim1 * k]"
    and "inva = sgemm CblasColMajor CblasTrans CblasTrans dim2 dim1 k float_1 (sv_vt r) k u' dim1 0
                  (replicate (dim2 * dim1) (u_float un)) dim2"
    and "length inva = dim2 * dim1"
  shows "\<exists>out. utility_spinv sgesvd sgemm fmul fdiv un (Ptr inbuf) dim1 dim2 (Ptr obuf) = Some (Ptr out)
           \<and> length out = dim2 * dim1
           \<and> (\<forall>i<dim1. \<forall>j<dim2. out ! (j * dim1 + i) = inva ! (i * dim2 + j))"
proof -
  have k: "(if dim1 < dim2 then dim1 else dim2) = k" by (simp add: assms(3) min_def)
  have loops: "for_loop 0 dim1
           (\<lambda>i a. for_loop 0 dim2
              (\<lambda>j a. do { x \<leftarrow> load (Ptr inbuf) (i * dim2 + j); store a (j * dim1 + i) x }) a)
           (Ptr (replicate (dim1 * dim2) (u_float un)))
         = Some (Ptr (col_major dim1 dim2 inbuf))"
    using assms(1) by (intro to_col_major_loops) simp_all
  have scale: "for_loop 0 k
           (\<lambda>i u. do { si \<leftarrow> load (Ptr (sv_s r)) i;
                       cblas_scal fmul dim1
                         ((\<lambda>si. if float_gt si float_1em5 then fdiv float_1 si else si) si) u (i * dim1) })
           (Ptr (sv_u r)) = Some (Ptr u')"
    unfolding assms(9) Let_def using assms(5,6) by (rule scale_columns_loop)
  obtain out where out: "for_loop 0 dim1
           (\<lambda>i outM. for_loop 0 dim2
              (\<lambda>j outM. do { x \<leftarrow> load (Ptr inva) (i * dim2 + j); store outM (j * dim1 + i) x }) outM)
           (Ptr obuf) = Some (Ptr out)"
      "length out = dim1 * dim2" "\<forall>i<dim1. \<forall>j<dim2. out ! (j * dim1 + i) = inva ! (i * dim2 + j)"
    using from_col_major_loops [of inva dim2 dim1 obuf] assms(2,11) by blast
  have "utility_spinv sgesvd sgemm fmul fdiv un (Ptr inbuf) dim1 dim2 (Ptr obuf) = Some (Ptr out)"
    unfolding utility_spinv_def Let_def k malloc_def loops
    using assms(5-8,11) scale out(1)
    by (simp add: deref_def backend_wrote_def assms(4) [symmetric] assms(10) [symmetric])
  then show ?thesis using out(2,3) by (simp add: mult.commute)
qed

lemma utility_dpinv_success:
  fixes dgemm :: "double gemm_fn"
  assumes "length inbuf = dim1 * dim2" and "length obuf = dim1 * dim2"
    and "k = min dim1 dim2"
    and "r = dgesvd ''S'' ''S'' dim1 dim2 (col_major dim1 dim2 inbuf) dim1 dim1 k"
    and "length (sv_s r) = k" and "length (sv_u r) = dim1 * k" and "length (sv_vt r) = k * dim2"
    and "\<not> sv_info r > 0"
    and "u' = map (\<lambda>p. dmul (let si = sv_s r ! (p div dim1)
                               in if double_gt si double_of_1em9f then ddiv double_of_1f si else si)
                             (sv_u r ! p)) [0..<dim1 * k]"
    and "inva = dgemm CblasColMajor CblasTrans CblasTrans dim2 dim1 k double_of_1f (sv_vt r) k u' dim1 0
                  (replicate (dim2 * dim1) (u_double un)) dim2"
    and "length inva = dim2 * dim1"
  shows "\<exists>out. utility_dpinv dgesvd dgemm dmul ddiv un (Ptr inbuf) dim1 dim2 (Ptr obuf) = Some (Ptr out)
           \<and> length out = dim2 * dim1
           \<and> (\<forall>i<dim1. \<forall>j<dim2. out ! (j * dim1 + i) = inva ! (i * dim2 + j))"
proof -
  have k: "(if dim1 < dim2 then dim1 else dim2) = k" by (simp add: assms(3) min_def)
  have loops: "for_loop 0 dim1
           (\<lambda>i a. for_loop 0 dim2
              (\<lambda>j a. do { x \<leftarrow> load (Ptr inbuf) (i * dim2 + j); store a (j * dim1 + i) x }) a)
           (Ptr (replicate (dim1 * dim2) (u_double un)))
         = Some (Ptr (col_major dim1 dim2 inbuf))"
    using assms(1) by (intro to_col_major_loops) simp_all
  have scale: "for_loop 0 k
           (\<lambda>i u. do { si \<leftarrow> load (Ptr (sv_s r)) i;
                       cblas_scal dmul dim1
                         ((\<lambda>si. if double_gt si double_of_1em9f then ddiv double_of_1f si else si) si)
                         u (i * dim1) })
           (Ptr (sv_u r)) = Some (Ptr u')"
    unfolding assms(9) Let_def using assms(5,6) by (rule scale_columns_loop)
  obtain out where out: "for_loop 0 dim1
           (\<lambda>i outM. for_loop 0 dim2
              (\<lambda>j outM. do { x \<leftarrow> load (Ptr inva) (i * dim2 + j); store outM (j * dim1 + i) x }) outM)
           (Ptr obuf) = Some (Ptr out)"
      "length out = dim1 * dim2" "\<forall>i<dim1. \<forall>j<dim2. out ! (j * dim1 + i) = inva ! (i * dim2 + j)"
    using from_col_major_loops [of inva dim2 dim1 obuf] assms(2,11) by blast
  have "utility_dpinv dgesvd dgemm dmul ddiv un (Ptr inbuf) dim1 dim2 (Ptr obuf) = Some (Ptr out)"
    unfolding utility_dpinv_def Let_def k malloc_def loops
    using assms(5-8,11) scale out(1)
    by (simp add: deref_def backend_wrote_def assms(4) [symmetric] assms(10) [symmetric])
  then show ?thesis using out(2,3) by (simp add: mult.commute)
qed


text \<open>
  C7. The property fails for \<open>utility_dpinv\<close> at the threshold. The source compares with
  the \<^verbatim>\<open>float\<close> literal \<^verbatim>\<open>1.0e-9f\<close>, which is below \<open>10\<^sup>-\<^sup>9\<close>. The \<open>1 \<times> 1\<close> matrix with the entry
  \<open>10\<^sup>-\<^sup>9\<close> has that singular value, with \<open>u = vt = 1\<close>: the value does not exceed \<open>10\<^sup>-\<^sup>9\<close>, yet
  the driver scales by its reciprocal. (\<open>dgemm\<close> on \<open>1 \<times> 1\<close> factors is one product.)
\<close>

theorem utility_dpinv_inverts_at_threshold:
  "\<not> double_gt double_1em9 double_1em9
   \<and> double_gt double_1em9 double_of_1em9f
   \<and> utility_dpinv
        (\<lambda>jobu jobvt m n a lda ldu ldvt.
           \<lparr>sv_a = a, sv_s = [double_1em9], sv_u = [double_of_1f], sv_vt = [double_of_1f],
            sv_info = 0\<rparr>)
        (\<lambda>order ta tb M N K alpha A lda B ldb beta C ldc. [dmul (A ! 0) (B ! 0)])
        dmul ddiv un (Ptr [double_1em9]) 1 1 (Ptr [x])
      = Some (Ptr [dmul double_of_1f (dmul (ddiv double_of_1f double_1em9) double_of_1f)])"
proof -
  have gt: "double_gt double_1em9 double_of_1em9f" and ngt: "\<not> double_gt double_1em9 double_1em9"
    by (simp_all add: double_gt_def double_key_def double_is_nan_def double_1em9_def
          double_of_1em9f_def)
  let ?sgesvd = "\<lambda>jobu jobvt (m::nat) (n::nat) (a::double list) (lda::nat) (ldu::nat) (ldvt::nat).
           \<lparr>sv_a = a, sv_s = [double_1em9], sv_u = [double_of_1f], sv_vt = [double_of_1f],
            sv_info = 0\<rparr>"
  let ?gemm = "\<lambda>(order::CBLAS_ORDER) (ta::CBLAS_TRANSPOSE) (tb::CBLAS_TRANSPOSE) (M::nat) (N::nat)
           (K::nat) (alpha::double) A (lda::nat) B (ldb::nat) (beta::double) (C::double list)
           (ldc::nat). [dmul (A ! 0) (B ! 0)]"
  obtain out where out:
    "utility_dpinv ?sgesvd ?gemm dmul ddiv un (Ptr [double_1em9]) 1 1 (Ptr [x]) = Some (Ptr out)"
    "length out = 1"
    "out ! 0 = dmul double_of_1f (dmul (ddiv double_of_1f double_1em9) double_of_1f)"
    using utility_dpinv_success [where dgesvd = ?sgesvd and dgemm = ?gemm and dmul = dmul
        and ddiv = ddiv and un = un and inbuf = "[double_1em9]" and obuf = "[x]" and ?dim1.0 = 1
        and ?dim2.0 = 1, OF _ _ refl refl _ _ _ _ refl refl] gt
    by (auto simp: upt_rec)
  then have "out = [dmul double_of_1f (dmul (ddiv double_of_1f double_1em9) double_of_1f)]"
    by (cases out) simp_all
  with out(1) gt ngt show ?thesis by simp
qed

section \<open>Symmetric eigendecomposition\<close>

text \<open>The input loops of the square drivers: \<open>a[i * dim + j] = A[j * dim + i]\<close>.\<close>

lemma transpose_square_loops:
  assumes "length A = dim * dim" and "length a0 = dim * dim"
  shows "for_loop 0 dim
           (\<lambda>i a. for_loop 0 dim
              (\<lambda>j a. do { x \<leftarrow> load (Ptr A) (j * dim + i); store a (i * dim + j) x }) a)
           (Ptr a0)
         = Some (Ptr (col_major dim dim A))"
proof -
  have "\<exists>d'. for_loop 0 dim (\<lambda>i d. for_loop 0 dim
           ((\<lambda>i j a. do { x \<leftarrow> load (Ptr A) (j * dim + i); store a (i * dim + j) x }) i) d) (Ptr a0)
          = Some (Ptr d')
        \<and> length d' = length a0
        \<and> (\<forall>i<dim. \<forall>j<dim. d' ! (i * dim + j) = A ! (j * dim + i))
        \<and> (\<forall>k<length a0. (\<forall>i<dim. \<forall>j<dim. i * dim + j \<noteq> k) \<longrightarrow> d' ! k = a0 ! k)"
  proof (rule nested_store_loops)
    fix i j d assume "i < dim" "j < dim" "length (d::'a list) = length a0"
    then show "(do { x \<leftarrow> load (Ptr A) (j * dim + i); store (Ptr d) (i * dim + j) x })
                 = store (Ptr d) (i * dim + j) (A ! (j * dim + i))"
      using assms idx_range [of j dim i dim] by (simp add: load_Ptr)
  next
    fix i j assume "i < dim" "j < dim"
    then show "i * dim + j < length a0" using assms idx_range [of i dim j dim] by simp
  next
    fix i j i' j' assume "i < dim" "j < dim" "i' < dim" "j' < dim" "i * dim + j = i' * dim + j'"
    then show "i = i' \<and> j = j'" using idx_inj [of j dim j' i i'] by simp
  qed
  then obtain d' where d': "for_loop 0 dim (\<lambda>i a. for_loop 0 dim
           (\<lambda>j a. do { x \<leftarrow> load (Ptr A) (j * dim + i); store a (i * dim + j) x }) a) (Ptr a0)
          = Some (Ptr d')" "length d' = dim * dim"
          "\<forall>i<dim. \<forall>j<dim. d' ! (i * dim + j) = A ! (j * dim + i)"
    using assms by auto
  have "d' = col_major dim dim A"
  proof (rule nth_equalityI)
    show "length d' = length (col_major dim dim A)" by (simp add: d'(2) col_major_def)
    fix k assume "k < length d'"
    then have k: "k < dim * dim" by (simp add: d'(2))
    then have "k div dim < dim" "k mod dim < dim" using idx_decompose [of k dim dim] by simp_all
    then have "d' ! ((k div dim) * dim + k mod dim) = A ! ((k mod dim) * dim + k div dim)"
      using d'(3) [rule_format, of "k div dim" "k mod dim"] by blast
    moreover have "(k div dim) * dim + k mod dim = k" by simp
    ultimately show "d' ! k = col_major dim dim A ! k"
      using k by (simp add: col_major_def)
  qed
  then show ?thesis using d'(1) by simp
qed

text \<open>
  The output loop: row \<open>i\<close> of \<open>V\<close> is filled from \<open>a\<close> and the diagonal entry \<open>i\<close> of the
  zeroed \<open>D\<close> is set.
\<close>

lemma eig_output_loop:
  assumes len: "length vbuf = dim * dim" "length dbuf = dim * dim"
    and rowV: "\<And>i j v. i < dim \<Longrightarrow> j < dim \<Longrightarrow> length v = dim * dim \<Longrightarrow>
                 bodyV i j (Ptr v) = store (Ptr v) (i * dim + j) (gV i j)"
    and diag: "\<And>i d. i < dim \<Longrightarrow> length d = dim * dim \<Longrightarrow>
                 bodyD i (Ptr d) = store (Ptr d) (i * dim + i) (gD i)"
  shows "\<exists>v' d'. for_loop 0 dim
             (\<lambda>i (V, D). do { V \<leftarrow> for_loop 0 dim (bodyV i) V; D \<leftarrow> bodyD i D; Some (V, D) })
             (Ptr vbuf, Ptr dbuf) = Some (Ptr v', Ptr d')
           \<and> length v' = dim * dim \<and> length d' = dim * dim
           \<and> (\<forall>i<dim. \<forall>j<dim. v' ! (i * dim + j) = gV i j)
           \<and> (\<forall>i<dim. \<forall>j<dim. d' ! (i * dim + j) = (if i = j then gD i else dbuf ! (i * dim + j)))"
proof -
  let ?body = "\<lambda>i (V, D). do { V \<leftarrow> for_loop 0 dim (bodyV i) V; D \<leftarrow> bodyD i D; Some (V, D) }"
  define I where "I = (\<lambda>(i::nat) s. \<exists>v d. s = (Ptr v, Ptr d)
      \<and> length v = dim * dim \<and> length d = dim * dim
      \<and> (\<forall>i'<i. \<forall>j<dim. v ! (i' * dim + j) = gV i' j)
      \<and> (\<forall>i'<dim. \<forall>j<dim. d ! (i' * dim + j)
             = (if i' = j \<and> i' < i then gD i' else dbuf ! (i' * dim + j))))"
  have "\<exists>s'. for_loop 0 dim ?body (Ptr vbuf, Ptr dbuf) = Some s' \<and> I dim s'"
  proof (rule for_loop_rule [where I = I])
    show "I 0 (Ptr vbuf, Ptr dbuf)" unfolding I_def using len by simp
    show "0 \<le> dim" by simp
    fix i s assume i: "i < dim" and "I i s"
    then obtain v d where s: "s = (Ptr v, Ptr d)" and lv: "length v = dim * dim"
      and ld: "length d = dim * dim"
      and v: "\<forall>i'<i. \<forall>j<dim. v ! (i' * dim + j) = gV i' j"
      and d: "\<forall>i'<dim. \<forall>j<dim. d ! (i' * dim + j)
             = (if i' = j \<and> i' < i then gD i' else dbuf ! (i' * dim + j))"
      unfolding I_def by blast
    have "\<exists>v'. for_loop 0 dim (bodyV i) (Ptr v) = Some (Ptr v')
           \<and> length v' = length v
           \<and> (\<forall>j<dim. v' ! (i * dim + j) = gV i j)
           \<and> (\<forall>k<length v. (\<forall>j<dim. i * dim + j \<noteq> k) \<longrightarrow> v' ! k = v ! k)"
    proof (rule store_loop)
      fix j d assume "j < dim" "length (d::'a list) = length v"
      then show "bodyV i j (Ptr d) = store (Ptr d) (i * dim + j) (gV i j)"
        using rowV i lv by simp
    next
      fix j assume "j < dim"
      then show "i * dim + j < length v" using idx_range [of i dim j dim] i lv by simp
    qed simp
    then obtain v' where v': "for_loop 0 dim (bodyV i) (Ptr v) = Some (Ptr v')"
      "length v' = dim * dim" "\<forall>j<dim. v' ! (i * dim + j) = gV i j"
      "\<forall>k<dim * dim. (\<forall>j<dim. i * dim + j \<noteq> k) \<longrightarrow> v' ! k = v ! k"
      using lv by auto
    have ii: "i * dim + i < dim * dim" using idx_range [of i dim i dim] i by simp
    have run: "?body i s = Some (Ptr v', Ptr (d[i * dim + i := gD i]))"
      using v'(1) diag [OF i ld] ii by (simp add: s store_Ptr ld)
    have "I (Suc i) (Ptr v', Ptr (d[i * dim + i := gD i]))"
      unfolding I_def
    proof (intro exI conjI allI impI)
      show "(Ptr v', Ptr (d[i * dim + i := gD i])) = (Ptr v', Ptr (d[i * dim + i := gD i]))" by simp
      show "length v' = dim * dim" by (rule v'(2))
      show "length (d[i * dim + i := gD i]) = dim * dim" using ld by simp
    next
      fix i' j assume a: "i' < Suc i" "j < dim"
      show "v' ! (i' * dim + j) = gV i' j"
      proof (cases "i' = i")
        case True then show ?thesis using v'(3) a by simp
      next
        case False
        then have lt: "i' < i" using a by simp
        then have "i' < dim" using i by simp
        then have "i' * dim + j < dim * dim" using idx_range [of i' dim j dim] a by simp
        moreover have "\<forall>j'<dim. i * dim + j' \<noteq> i' * dim + j"
          using idx_inj [of _ dim j i i'] a False by blast
        ultimately have "v' ! (i' * dim + j) = v ! (i' * dim + j)" using v'(4) by blast
        then show ?thesis using v lt a by simp
      qed
    next
      fix i' j assume a: "i' < dim" "j < dim"
      have r: "i' * dim + j < length d" using idx_range [of i' dim j dim] a ld by simp
      show "d[i * dim + i := gD i] ! (i' * dim + j)
              = (if i' = j \<and> i' < Suc i then gD i' else dbuf ! (i' * dim + j))"
      proof (cases "i' = i \<and> j = i")
        case True then show ?thesis using r by simp
      next
        case False
        then have "i * dim + i \<noteq> i' * dim + j" using idx_inj [of i dim j i i'] i a by blast
        then have "d[i * dim + i := gD i] ! (i' * dim + j) = d ! (i' * dim + j)" by simp
        then show ?thesis using d a False by (auto simp: less_Suc_eq)
      qed
    qed
    with run show "\<exists>s'. ?body i s = Some s' \<and> I (Suc i) s'" by blast
  qed
  then obtain v' d' where r: "for_loop 0 dim ?body (Ptr vbuf, Ptr dbuf) = Some (Ptr v', Ptr d')"
      "length v' = dim * dim" "length d' = dim * dim"
      "\<forall>i'<dim. \<forall>j<dim. v' ! (i' * dim + j) = gV i' j"
      "\<forall>i'<dim. \<forall>j<dim. d' ! (i' * dim + j)
             = (if i' = j \<and> i' < dim then gD i' else dbuf ! (i' * dim + j))"
    unfolding I_def by blast
  have "\<forall>i<dim. \<forall>j<dim. d' ! (i * dim + j) = (if i = j then gD i else dbuf ! (i * dim + j))"
    using r(5) by simp
  with r(1-4) show ?thesis by blast
qed

text \<open>Where \<open>dim * dim\<close> is not an \<^verbatim>\<open>int\<close>, the first allocation already overflows.\<close>

lemma utility_sseig_overflow:
  assumes "INT_MAX < dim * dim"
  shows "utility_sseig ssyev u A dim sortDecFLAG V D = None"
  unfolding utility_sseig_def Let_def by (simp add: int_mul_overflow [OF assms])

text \<open>
  C4. \<open>utility_sseig\<close> on a \<open>dim \<times> dim\<close> input whose element count \<open>dim * dim\<close> is an
  \<^verbatim>\<open>int\<close>, when the eigensolver \<open>r\<close> succeeds and returns its eigenvalues \<open>w\<close> in ascending
  order: the call returns \<open>V\<close> and \<open>D\<close>; \<open>D\<close> is zero off
  the diagonal; with a nonzero sort flag \<open>D[i][i] = w[dim-1-i]\<close>, column \<open>j\<close> of \<open>V\<close> is the
  backend's eigenvector \<open>dim-1-j\<close>, and the diagonal is non-increasing; with the flag \<open>0\<close>,
  \<open>D[i][i] = w[i]\<close>, \<open>V\<close> is the row-major transpose of the backend's matrix, and the diagonal
  is non-decreasing.
\<close>

theorem utility_sseig_order:
  assumes "length Abuf = dim * dim" and "length Vbuf = dim * dim" and "length Dbuf = dim * dim"
    and rng: "dim * dim \<le> INT_MAX"
    and "r = ssyev ''Vectors'' ''Upper'' dim (col_major dim dim Abuf) dim"
    and "length (ev_a r) = dim * dim" and "length (ev_w r) = dim"
    and "ev_info r \<le> 0"
    and "\<forall>i<dim. \<forall>j<dim. i \<le> j \<longrightarrow> float_le (ev_w r ! i) (ev_w r ! j)"
  shows "\<exists>V' D'. utility_sseig ssyev u (Ptr Abuf) dim sortDecFLAG (Ptr Vbuf) (Ptr Dbuf)
                    = Some (Ptr V', Ptr D')
           \<and> length V' = dim * dim \<and> length D' = dim * dim
           \<and> (\<forall>i<dim. \<forall>j<dim. D' ! (i * dim + j) =
                 (if i = j then ev_w r ! (if sortDecFLAG \<noteq> 0 then dim - 1 - i else i) else 0))
           \<and> (\<forall>i<dim. \<forall>j<dim. V' ! (i * dim + j) =
                 ev_a r ! ((if sortDecFLAG \<noteq> 0 then dim - 1 - j else j) * dim + i))
           \<and> (\<forall>i<dim. \<forall>j<dim. i \<le> j \<longrightarrow>
                 (if sortDecFLAG \<noteq> 0 then float_le (D' ! (j * dim + j)) (D' ! (i * dim + i))
                  else float_le (D' ! (i * dim + i)) (D' ! (j * dim + j))))"
proof -
  let ?a = "ev_a r" and ?w = "ev_w r"
  let ?z = "replicate (dim * dim) (0::float)"
  have loops: "for_loop 0 dim
           (\<lambda>i a. for_loop 0 dim
              (\<lambda>j a. do { x \<leftarrow> load (Ptr Abuf) (j * dim + i); store a (i * dim + j) x }) a)
           (Ptr (replicate (dim * dim) (u_float u)))
         = Some (Ptr (col_major dim dim Abuf))"
    using assms(1) by (intro transpose_square_loops) simp_all
  have zero: "memset_float (Ptr Dbuf) 0 (dim * dim * sizeof_float) = Some (Ptr ?z)"
    using memset_float_zero [of "dim * dim" Dbuf] assms(3) by simp
  have z_nth: "?z ! (i * dim + j) = 0" if "i < dim" "j < dim" for i j
    using idx_range [OF that] by simp
  have dec: "\<exists>v' d'. for_loop 0 dim
             (\<lambda>i (V, D). do {
                V \<leftarrow> for_loop 0 dim
                       (\<lambda>j V. do { x \<leftarrow> load (Ptr ?a) ((dim - j - 1) * dim + i); store V (i * dim + j) x }) V;
                D \<leftarrow> do { x \<leftarrow> load (Ptr ?w) (dim - i - 1); store D (i * dim + i) x };
                Some (V, D) })
             (Ptr Vbuf, Ptr ?z) = Some (Ptr v', Ptr d')
           \<and> length v' = dim * dim \<and> length d' = dim * dim
           \<and> (\<forall>i<dim. \<forall>j<dim. v' ! (i * dim + j) = ?a ! ((dim - 1 - j) * dim + i))
           \<and> (\<forall>i<dim. \<forall>j<dim. d' ! (i * dim + j)
                  = (if i = j then ?w ! (dim - 1 - i) else ?z ! (i * dim + j)))"
  proof (rule eig_output_loop)
    fix i j v assume "i < dim" "j < dim" "length (v::float list) = dim * dim"
    then show "(do { x \<leftarrow> load (Ptr ?a) ((dim - j - 1) * dim + i); store (Ptr v) (i * dim + j) x })
        = store (Ptr v) (i * dim + j) (?a ! ((dim - 1 - j) * dim + i))"
      using idx_range [of "dim - j - 1" dim i dim] assms(6) by (simp add: load_Ptr)
  next
    fix i d assume "i < dim" "length (d::float list) = dim * dim"
    then show "(do { x \<leftarrow> load (Ptr ?w) (dim - i - 1); store (Ptr d) (i * dim + i) x })
        = store (Ptr d) (i * dim + i) (?w ! (dim - 1 - i))"
      using assms(7) by (simp add: load_Ptr)
  qed (simp_all add: assms(2))
  have asc: "\<exists>v' d'. for_loop 0 dim
             (\<lambda>i (V, D). do {
                V \<leftarrow> for_loop 0 dim
                       (\<lambda>j V. do { x \<leftarrow> load (Ptr ?a) (j * dim + i); store V (i * dim + j) x }) V;
                D \<leftarrow> do { x \<leftarrow> load (Ptr ?w) i; store D (i * dim + i) x };
                Some (V, D) })
             (Ptr Vbuf, Ptr ?z) = Some (Ptr v', Ptr d')
           \<and> length v' = dim * dim \<and> length d' = dim * dim
           \<and> (\<forall>i<dim. \<forall>j<dim. v' ! (i * dim + j) = ?a ! (j * dim + i))
           \<and> (\<forall>i<dim. \<forall>j<dim. d' ! (i * dim + j) = (if i = j then ?w ! i else ?z ! (i * dim + j)))"
  proof (rule eig_output_loop)
    fix i j v assume "i < dim" "j < dim" "length (v::float list) = dim * dim"
    then show "(do { x \<leftarrow> load (Ptr ?a) (j * dim + i); store (Ptr v) (i * dim + j) x })
        = store (Ptr v) (i * dim + j) (?a ! (j * dim + i))"
      using idx_range [of j dim i dim] assms(6) by (simp add: load_Ptr)
  next
    fix i d assume "i < dim" "length (d::float list) = dim * dim"
    then show "(do { x \<leftarrow> load (Ptr ?w) i; store (Ptr d) (i * dim + i) x })
        = store (Ptr d) (i * dim + i) (?w ! i)"
      using assms(7) by (simp add: load_Ptr)
  qed (simp_all add: assms(2))
  have pre: "utility_sseig ssyev u (Ptr Abuf) dim sortDecFLAG (Ptr Vbuf) (Ptr Dbuf) =
      (if sortDecFLAG \<noteq> 0 then
         for_loop 0 dim
             (\<lambda>i (V, D). do {
                V \<leftarrow> for_loop 0 dim
                       (\<lambda>j V. do { x \<leftarrow> load (Ptr ?a) ((dim - j - 1) * dim + i); store V (i * dim + j) x }) V;
                D \<leftarrow> do { x \<leftarrow> load (Ptr ?w) (dim - i - 1); store D (i * dim + i) x };
                Some (V, D) })
             (Ptr Vbuf, Ptr ?z)
       else
         for_loop 0 dim
             (\<lambda>i (V, D). do {
                V \<leftarrow> for_loop 0 dim
                       (\<lambda>j V. do { x \<leftarrow> load (Ptr ?a) (j * dim + i); store V (i * dim + j) x }) V;
                D \<leftarrow> do { x \<leftarrow> load (Ptr ?w) i; store D (i * dim + i) x };
                Some (V, D) })
             (Ptr Vbuf, Ptr ?z))"
    unfolding utility_sseig_def Let_def
    using assms(6-8)
    by (simp add: int_mul_ok [OF rng] malloc_def loops deref_def backend_wrote_def zero
          assms(5) [symmetric])
  show ?thesis
  proof (cases "sortDecFLAG \<noteq> 0")
    case True
    from dec obtain v' d' where o: "for_loop 0 dim
             (\<lambda>i (V, D). do {
                V \<leftarrow> for_loop 0 dim
                       (\<lambda>j V. do { x \<leftarrow> load (Ptr ?a) ((dim - j - 1) * dim + i); store V (i * dim + j) x }) V;
                D \<leftarrow> do { x \<leftarrow> load (Ptr ?w) (dim - i - 1); store D (i * dim + i) x };
                Some (V, D) })
             (Ptr Vbuf, Ptr ?z) = Some (Ptr v', Ptr d')"
      "length v' = dim * dim" "length d' = dim * dim"
      "\<forall>i<dim. \<forall>j<dim. v' ! (i * dim + j) = ?a ! ((dim - 1 - j) * dim + i)"
      "\<forall>i<dim. \<forall>j<dim. d' ! (i * dim + j) = (if i = j then ?w ! (dim - 1 - i) else ?z ! (i * dim + j))"
      by blast
    have d: "\<forall>i<dim. \<forall>j<dim. d' ! (i * dim + j) = (if i = j then ?w ! (dim - 1 - i) else 0)"
      using o(5) z_nth by simp
    have "float_le (d' ! (j * dim + j)) (d' ! (i * dim + i))" if "i < dim" "j < dim" "i \<le> j" for i j
    proof -
      have "dim - 1 - j < dim" "dim - 1 - i < dim" "dim - 1 - j \<le> dim - 1 - i"
        using that by simp_all
      then have "float_le (?w ! (dim - 1 - j)) (?w ! (dim - 1 - i))" using assms(9) by blast
      then show ?thesis using d that by simp
    qed
    with True pre o(1-4) d show ?thesis by simp
  next
    case False
    from asc obtain v' d' where o: "for_loop 0 dim
             (\<lambda>i (V, D). do {
                V \<leftarrow> for_loop 0 dim
                       (\<lambda>j V. do { x \<leftarrow> load (Ptr ?a) (j * dim + i); store V (i * dim + j) x }) V;
                D \<leftarrow> do { x \<leftarrow> load (Ptr ?w) i; store D (i * dim + i) x };
                Some (V, D) })
             (Ptr Vbuf, Ptr ?z) = Some (Ptr v', Ptr d')"
      "length v' = dim * dim" "length d' = dim * dim"
      "\<forall>i<dim. \<forall>j<dim. v' ! (i * dim + j) = ?a ! (j * dim + i)"
      "\<forall>i<dim. \<forall>j<dim. d' ! (i * dim + j) = (if i = j then ?w ! i else ?z ! (i * dim + j))"
      by blast
    have d: "\<forall>i<dim. \<forall>j<dim. d' ! (i * dim + j) = (if i = j then ?w ! i else 0)"
      using o(5) z_nth by simp
    have "float_le (d' ! (i * dim + i)) (d' ! (j * dim + j))" if "i < dim" "j < dim" "i \<le> j" for i j
      using assms(9) d that by simp
    with False pre o(1-4) d show ?thesis by simp
  qed
qed

text \<open>
  The symmetric matrix with rows \<open>(4, 0)\<close> and \<open>(0, 9)\<close>, on a backend that returns the
  unit vectors with the eigenvalues \<open>4\<close> and \<open>9\<close>: descending gives \<open>D = diag(9, 4)\<close> and \<open>V\<close>
  with its columns swapped, ascending gives \<open>D = diag(4, 9)\<close> and the identity.
\<close>

theorem utility_sseig_order_witness:
  "utility_sseig
     (\<lambda>jobz uplo n a lda.
        \<lparr>ev_a = [0x3F800000, 0, 0, 0x3F800000], ev_w = [0x40800000, 0x41100000], ev_info = 0\<rparr>)
     \<lparr>u_float = 0x7FC00000, u_double = 0, u_int = 0, u_info = 1\<rparr>
     (Ptr [0x40800000, 0, 0, 0x41100000]) 2 1
     (Ptr [0x7FC00000, 0x7FC00000, 0x7FC00000, 0x7FC00000])
     (Ptr [0x7FC00000, 0x7FC00000, 0x7FC00000, 0x7FC00000])
   = Some (Ptr [0, 0x3F800000, 0x3F800000, 0], Ptr [0x41100000, 0, 0, 0x40800000])
   \<and> utility_sseig
     (\<lambda>jobz uplo n a lda.
        \<lparr>ev_a = [0x3F800000, 0, 0, 0x3F800000], ev_w = [0x40800000, 0x41100000], ev_info = 0\<rparr>)
     \<lparr>u_float = 0x7FC00000, u_double = 0, u_int = 0, u_info = 1\<rparr>
     (Ptr [0x40800000, 0, 0, 0x41100000]) 2 0
     (Ptr [0x7FC00000, 0x7FC00000, 0x7FC00000, 0x7FC00000])
     (Ptr [0x7FC00000, 0x7FC00000, 0x7FC00000, 0x7FC00000])
   = Some (Ptr [0x3F800000, 0, 0, 0x3F800000], Ptr [0x40800000, 0, 0, 0x41100000])"
proof -
  let ?ssyev = "\<lambda>(jobz::string) (uplo::string) (n::nat) (a::float list) (lda::nat).
        \<lparr>ev_a = [0x3F800000, 0, 0, 0x3F800000], ev_w = [0x40800000, 0x41100000], ev_info = 0\<rparr>"
  let ?u = "\<lparr>u_float = 0x7FC00000, u_double = 0, u_int = 0, u_info = 1\<rparr>"
  let ?A = "[0x40800000, 0, 0, 0x41100000] :: float list"
  let ?J = "[0x7FC00000, 0x7FC00000, 0x7FC00000, 0x7FC00000] :: float list"
  let ?r = "\<lparr>ev_a = [0x3F800000, 0, 0, 0x3F800000], ev_w = [0x40800000, 0x41100000 :: float],
             ev_info = 0\<rparr>"
  have p: "length ?A = 2 * 2" "length ?J = 2 * 2" "length (ev_a ?r) = 2 * 2" "length (ev_w ?r) = 2"
    "ev_info ?r \<le> 0" "(2::nat) * 2 \<le> INT_MAX"
    by (simp_all add: INT_MAX_def)
  have asc: "\<forall>i<2. \<forall>j<2. i \<le> j \<longrightarrow> float_le (ev_w ?r ! i) (ev_w ?r ! j)"
  proof -
    have "float_le 0x40800000 0x40800000" "float_le 0x40800000 0x41100000"
      "float_le 0x41100000 0x41100000"
      by (simp_all add: float_le_def float_is_nan_def float_key_def)
    then show ?thesis by (auto simp: less_2_cases_iff)
  qed
  have "utility_sseig ?ssyev ?u (Ptr ?A) 2 flag (Ptr ?J) (Ptr ?J) =
     Some (Ptr (map (\<lambda>k. ev_a ?r ! ((if flag \<noteq> 0 then 2 - 1 - k mod 2 else k mod 2) * 2 + k div 2))
                  [0..<2 * 2]),
           Ptr (map (\<lambda>k. if k div 2 = k mod 2
                          then ev_w ?r ! (if flag \<noteq> 0 then 2 - 1 - k div 2 else k div 2)
                          else 0) [0..<2 * 2]))" for flag
  proof -
    note th = utility_sseig_order [where ssyev = ?ssyev and u = ?u and sortDecFLAG = flag,
        OF p(1) p(2) p(2) p(6) refl p(3) p(4) p(5) asc]
    from th obtain V' D' where
      r: "utility_sseig ?ssyev ?u (Ptr ?A) 2 flag (Ptr ?J) (Ptr ?J) = Some (Ptr V', Ptr D')"
      and l: "length V' = 2 * 2" "length D' = 2 * 2"
      and d: "\<forall>i<2. \<forall>j<2. D' ! (i * 2 + j) =
            (if i = j then ev_w ?r ! (if flag \<noteq> 0 then 2 - 1 - i else i) else 0)"
      and v: "\<forall>i<2. \<forall>j<2. V' ! (i * 2 + j) =
            ev_a ?r ! ((if flag \<noteq> 0 then 2 - 1 - j else j) * 2 + i)"
      by (elim exE conjE) (rule that; assumption)
    show ?thesis
      unfolding r using matrix_eqI [OF l(1) v] matrix_eqI [OF l(2) d] by simp
  qed
  from this [of 1] this [of 0] show ?thesis
    by (simp add: upt_4)
qed

section \<open>Sorting\<close>

subsection \<open>The comparators\<close>

lemma cmp_asc_float_le:
  assumes "\<not> float_is_nan (val x)" and "\<not> float_is_nan (val y)"
  shows "cmp_asc_float x y \<le> 0 \<longleftrightarrow> float_le (val x) (val y)"
  using assms by (auto simp: cmp_asc_float_def float_lt_def float_gt_def float_le_def)

lemma cmp_desc_float_le:
  assumes "\<not> float_is_nan (val x)" and "\<not> float_is_nan (val y)"
  shows "cmp_desc_float x y \<le> 0 \<longleftrightarrow> float_le (val y) (val x)"
  using assms by (auto simp: cmp_desc_float_def float_lt_def float_gt_def float_le_def)

lemma cmp_asc_float_consistent:
  assumes "\<forall>x\<in>S. \<not> float_is_nan (val x)"
  shows "cmp_consistent cmp_asc_float S"
  unfolding cmp_consistent_def
proof (intro conjI ballI impI)
  fix x y assume "x \<in> S" "y \<in> S"
  then show "(cmp_asc_float x y < 0) = (0 < cmp_asc_float y x)"
    and "(cmp_asc_float x y = 0) = (cmp_asc_float y x = 0)"
    using assms by (auto simp: cmp_asc_float_def float_lt_def float_gt_def)
next
  fix x y z assume "x \<in> S" "y \<in> S" "z \<in> S" "cmp_asc_float x y \<le> 0 \<and> cmp_asc_float y z \<le> 0"
  then show "cmp_asc_float x z \<le> 0"
    using assms by (simp add: cmp_asc_float_le float_le_def)
qed

lemma cmp_desc_float_consistent:
  assumes "\<forall>x\<in>S. \<not> float_is_nan (val x)"
  shows "cmp_consistent cmp_desc_float S"
  unfolding cmp_consistent_def
proof (intro conjI ballI impI)
  fix x y assume "x \<in> S" "y \<in> S"
  then show "(cmp_desc_float x y < 0) = (0 < cmp_desc_float y x)"
    and "(cmp_desc_float x y = 0) = (cmp_desc_float y x = 0)"
    using assms by (auto simp: cmp_desc_float_def float_lt_def float_gt_def)
next
  fix x y z assume "x \<in> S" "y \<in> S" "z \<in> S" "cmp_desc_float x y \<le> 0 \<and> cmp_desc_float y z \<le> 0"
  then show "cmp_desc_float x z \<le> 0"
    using assms by (simp add: cmp_desc_float_le float_le_def)
qed

subsection \<open>Insertion sort honours the contract of \<^verbatim>\<open>qsort\<close>\<close>

lemma mset_insert_by: "mset (insert_by cmp x ys) = add_mset x (mset ys)"
  by (induction ys) simp_all

lemma set_insert_by: "set (insert_by cmp x ys) = insert x (set ys)"
  by (induction ys) auto

lemma mset_isort_by: "mset (isort_by cmp xs) = mset xs"
  by (induction xs) (simp_all add: isort_by_def mset_insert_by)

lemma cmp_consistent_total:
  assumes "cmp_consistent cmp S" and "x \<in> S" and "y \<in> S" and "\<not> cmp x y \<le> 0"
  shows "cmp y x \<le> 0"
proof -
  have "(cmp y x < 0) = (0 < cmp x y)"
    using assms(1-3) unfolding cmp_consistent_def by blast
  then show ?thesis using assms(4) by simp
qed

lemma cmp_consistent_trans:
  assumes "cmp_consistent cmp S" and "x \<in> S" and "y \<in> S" and "z \<in> S"
    and "cmp x y \<le> 0" and "cmp y z \<le> 0"
  shows "cmp x z \<le> 0"
proof -
  have "\<forall>x\<in>S. \<forall>y\<in>S. \<forall>z\<in>S. cmp x y \<le> 0 \<and> cmp y z \<le> 0 \<longrightarrow> cmp x z \<le> 0"
    using assms(1) unfolding cmp_consistent_def by (rule conjunct2)
  then show ?thesis using assms(2-6) by blast
qed

lemma cmp_consistent_subset:
  assumes "cmp_consistent cmp S" and "T \<subseteq> S"
  shows "cmp_consistent cmp T"
  unfolding cmp_consistent_def
proof (intro conjI ballI impI)
  fix x y assume "x \<in> T" "y \<in> T"
  then have "x \<in> S" "y \<in> S" using assms(2) by auto
  then show "(cmp x y < 0) = (0 < cmp y x)" "(cmp x y = 0) = (cmp y x = 0)"
    using assms(1) unfolding cmp_consistent_def by blast+
next
  fix x y z assume "x \<in> T" "y \<in> T" "z \<in> T" "cmp x y \<le> 0 \<and> cmp y z \<le> 0"
  then show "cmp x z \<le> 0"
    using cmp_consistent_trans [OF assms(1), of x y z] assms(2) by auto
qed

lemma sorted_insert_by:
  assumes "cmp_consistent cmp (insert x (set ys))" and "sorted_wrt (\<lambda>a b. cmp a b \<le> 0) ys"
  shows "sorted_wrt (\<lambda>a b. cmp a b \<le> 0) (insert_by cmp x ys)"
  using assms
proof (induction ys)
  case Nil
  then show ?case by simp
next
  case (Cons y ys)
  let ?S = "insert x (set (y # ys))"
  note con = Cons.prems(1)
  have sub: "cmp_consistent cmp (insert x (set ys))"
    by (rule cmp_consistent_subset [OF con]) auto
  have sy: "sorted_wrt (\<lambda>a b. cmp a b \<le> 0) ys" and yz: "\<forall>z\<in>set ys. cmp y z \<le> 0"
    using Cons.prems(2) by simp_all
  show ?case
  proof (cases "cmp x y \<le> 0")
    case True
    have "cmp x z \<le> 0" if "z \<in> set ys" for z
      by (rule cmp_consistent_trans [OF con, of x y z]) (use that True yz in auto)
    then show ?thesis using True Cons.prems(2) by simp
  next
    case False
    have yx: "cmp y x \<le> 0"
      by (rule cmp_consistent_total [OF con, of x y]) (use False in auto)
    have "sorted_wrt (\<lambda>a b. cmp a b \<le> 0) (insert_by cmp x ys)"
      using Cons.IH [OF sub sy] .
    moreover have "\<forall>z\<in>set (insert_by cmp x ys). cmp y z \<le> 0"
      using yx yz by (simp add: set_insert_by)
    ultimately show ?thesis using False by simp
  qed
qed

lemma sorted_isort_by:
  assumes "cmp_consistent cmp (set xs)"
  shows "sorted_wrt (\<lambda>a b. cmp a b \<le> 0) (isort_by cmp xs)"
  using assms
proof (induction xs)
  case Nil
  then show ?case by (simp add: isort_by_def)
next
  case (Cons x xs)
  have sub: "cmp_consistent cmp (set xs)"
    by (rule cmp_consistent_subset [OF Cons.prems]) auto
  have "set (isort_by cmp xs) = set xs"
    by (metis mset_isort_by set_mset_mset)
  then have "cmp_consistent cmp (insert x (set (isort_by cmp xs)))"
    using Cons.prems by simp
  then have "sorted_wrt (\<lambda>a b. cmp a b \<le> 0) (insert_by cmp x (isort_by cmp xs))"
    using Cons.IH sub by (intro sorted_insert_by)
  then show ?case by (simp add: isort_by_def)
qed

lemma isort_by_contract: "qsort_contract isort_by"
  unfolding qsort_contract_def by (simp add: mset_isort_by sorted_isort_by)

subsection \<open>\<open>sortf\<close>\<close>

lemma overwritten_NULL [simp]: "overwritten NULL xs = NULL"
  by (simp add: overwritten_def)

lemma overwritten_Ptr: "overwritten (Ptr buf) xs = Ptr (xs @ drop (length xs) buf)"
  by (simp add: overwritten_def)

lemma overwritten_Nil [simp]: "overwritten p [] = p"
  by (simp add: overwritten_def split: ptr.splits)

lemma overwritten_NULL_iff [simp]: "overwritten p xs = NULL \<longleftrightarrow> p = NULL"
  by (simp add: overwritten_def split: ptr.splits)

lemma store_overwritten:
  assumes "i < length buf"
  shows "store (overwritten (Ptr buf) (map g [0..<i])) i (g i)
           = Some (overwritten (Ptr buf) (map g [0..<Suc i]))"
  using assms by (simp add: overwritten_Ptr store_Ptr map_upt_update)

lemma sortf_output_loop:
  assumes sd: "length sd = len"
    and inb: "len \<le> length ibuf"
    and out: "out_vec = NULL \<or> (\<exists>obuf. out_vec = Ptr obuf \<and> len \<le> length obuf)"
    and new: "new_idices = NULL \<or> (\<exists>nbuf. new_idices = Ptr nbuf \<and> len \<le> length nbuf)"
  shows "for_loop 0 len
       (\<lambda>i (in_vec, out_vec, new_idices). do {
          d \<leftarrow> load (Ptr sd) i;
          (in_vec, out_vec) \<leftarrow>
            (if out_vec \<noteq> NULL then do { ov \<leftarrow> store out_vec i (val d); Some (in_vec, ov) }
             else do { iv \<leftarrow> store in_vec i (val d); Some (iv, out_vec) });
          new_idices \<leftarrow> (if new_idices \<noteq> NULL then store new_idices i (idx d)
                         else Some new_idices);
          Some (in_vec, out_vec, new_idices) })
       (Ptr ibuf, out_vec, new_idices)
     = Some (if out_vec = NULL then overwritten (Ptr ibuf) (map val sd) else Ptr ibuf,
             overwritten out_vec (map val sd), overwritten new_idices (map idx sd))"
proof -
  let ?body = "\<lambda>i (in_vec, out_vec, new_idices). do {
          d \<leftarrow> load (Ptr sd) i;
          (in_vec, out_vec) \<leftarrow>
            (if out_vec \<noteq> NULL then do { ov \<leftarrow> store out_vec i (val d); Some (in_vec, ov) }
             else do { iv \<leftarrow> store in_vec i (val d); Some (iv, out_vec) });
          new_idices \<leftarrow> (if new_idices \<noteq> NULL then store new_idices i (idx d)
                         else Some new_idices);
          Some (in_vec, out_vec, new_idices) }"
  define gv where "gv = (\<lambda>i. val (sd ! i))"
  define gi where "gi = (\<lambda>i. idx (sd ! i))"
  define I where "I = (\<lambda>i s. s =
      (if out_vec = NULL then overwritten (Ptr ibuf) (map gv [0..<i]) else Ptr ibuf,
       overwritten out_vec (map gv [0..<i]), overwritten new_idices (map gi [0..<i])))"
  have "\<exists>s'. for_loop 0 len ?body (Ptr ibuf, out_vec, new_idices) = Some s' \<and> I len s'"
  proof (rule for_loop_rule [where I = I])
    show "I 0 (Ptr ibuf, out_vec, new_idices)" by (simp add: I_def)
    show "0 \<le> len" by simp
    fix i s assume i: "i < len" and s: "I i s"
    have ld: "load (Ptr sd) i = Some (sd ! i)" using i sd by (simp add: load_Ptr)
    have ib: "i < length ibuf" using i inb by simp
    show "\<exists>s'. ?body i s = Some s' \<and> I (Suc i) s'"
    proof (cases out_vec)
      case NULL
      note oN = this
      show ?thesis
      proof (cases new_idices)
        case NULL
        then show ?thesis
          using s oN ld store_overwritten [OF ib, of gv]
          by (simp add: I_def gv_def del: upt_Suc)
      next
        case (Ptr nbuf)
        then have "i < length nbuf" using new i by auto
        then show ?thesis
          using s oN Ptr ld store_overwritten [OF ib, of gv] store_overwritten [of i nbuf gi]
          by (simp add: I_def gv_def gi_def del: upt_Suc)
      qed
    next
      case (Ptr obuf)
      note oP = this
      then have ob: "i < length obuf" using out i by auto
      show ?thesis
      proof (cases new_idices)
        case NULL
        then show ?thesis
          using s oP ld store_overwritten [OF ob, of gv]
          by (simp add: I_def gv_def del: upt_Suc)
      next
        case (Ptr nbuf)
        then have "i < length nbuf" using new i by auto
        then show ?thesis
          using s oP Ptr ld store_overwritten [OF ob, of gv] store_overwritten [of i nbuf gi]
          by (simp add: I_def gv_def gi_def del: upt_Suc)
      qed
    qed
  qed
  moreover have "map gv [0..<len] = map val sd" "map gi [0..<len] = map idx sd"
    using sd by (auto intro!: nth_equalityI simp: gv_def gi_def)
  ultimately show ?thesis by (simp add: I_def)
qed

lemma sortf_closed_form:
  assumes inb: "len \<le> length ibuf"
    and cmp: "cmp = (if descendFLAG \<noteq> 0 then cmp_desc_float else cmp_asc_float)"
    and data: "data = map (\<lambda>i. \<lparr>val = ibuf ! i, idx = i\<rparr>) [0..<len]"
    and sd: "length (qs cmp data) = len"
    and out: "out_vec = NULL \<or> (\<exists>obuf. out_vec = Ptr obuf \<and> len \<le> length obuf)"
    and new: "new_idices = NULL \<or> (\<exists>nbuf. new_idices = Ptr nbuf \<and> len \<le> length nbuf)"
  shows "sortf u qs (Ptr ibuf) out_vec new_idices len descendFLAG
         = Some (if out_vec = NULL then overwritten (Ptr ibuf) (map val (qs cmp data)) else Ptr ibuf,
                 overwritten out_vec (map val (qs cmp data)),
                 overwritten new_idices (map idx (qs cmp data)))"
proof -
  have fill: "for_loop 0 len
               (\<lambda>i data. do { v \<leftarrow> load (Ptr ibuf) i; store data i \<lparr>val = v, idx = i\<rparr> })
               (malloc \<lparr>val = u_float u, idx = u_int u\<rparr> len) = Some (Ptr data)"
  proof -
    have "for_loop 0 len
               (\<lambda>i data. do { v \<leftarrow> load (Ptr ibuf) i; store data i \<lparr>val = v, idx = i\<rparr> })
               (Ptr (replicate len \<lparr>val = u_float u, idx = u_int u\<rparr>))
          = Some (Ptr (map (\<lambda>i. \<lparr>val = ibuf ! i, idx = i\<rparr>) [0..<len]
                       @ drop len (replicate len \<lparr>val = u_float u, idx = u_int u\<rparr>)))"
      using inb by (intro for_loop_map) (simp_all add: ptr_simps)
    then show ?thesis by (simp add: malloc_def data)
  qed
  have ld: "length data = len" by (simp add: data)
  have srt: "qsort qs (Ptr data) len cmp = Some (Ptr (qs cmp data))"
    using sd ld by (simp add: qsort_def backend_wrote_def)
  have srt': "(if descendFLAG \<noteq> 0 then qsort qs (Ptr data) len cmp_desc_float
               else qsort qs (Ptr data) len cmp_asc_float) = Some (Ptr (qs cmp data))"
    using srt unfolding cmp by (cases "descendFLAG \<noteq> 0") simp_all
  show ?thesis
    unfolding sortf_def fill
    by (simp add: srt' sortf_output_loop [OF sd inb out new])
qed

text \<open>What is known of the array of (value, index) pairs after \<^verbatim>\<open>qsort\<close>.\<close>

lemma permuted_pairs:
  assumes con: "qsort_contract qs"
    and data: "data = map (\<lambda>i. \<lparr>val = ibuf ! i, idx = i\<rparr>) [0..<len]"
    and sd: "sd = qs cmp data"
  shows "mset sd = mset data"
    and "length sd = len"
    and "\<forall>e\<in>set sd. idx e < len \<and> ibuf ! idx e = val e"
proof -
  have "\<forall>cmp xs. mset (qs cmp xs) = mset xs"
    using con unfolding qsort_contract_def by (rule conjunct1)
  then show ms: "mset sd = mset data" unfolding sd by simp
  show "length sd = len" using mset_eq_length [OF ms] by (simp add: data)
  have "set sd = set data" using ms by (rule mset_eq_setD)
  then show "\<forall>e\<in>set sd. idx e < len \<and> ibuf ! idx e = val e"
    by (auto simp: data)
qed

lemma sorted_pairs:
  assumes con: "qsort_contract qs"
    and inb: "len \<le> length ibuf"
    and nan: "\<forall>x\<in>set (take len ibuf). \<not> float_is_nan x"
    and cmp: "cmp = (if descendFLAG \<noteq> 0 then cmp_desc_float else cmp_asc_float)"
    and data: "data = map (\<lambda>i. \<lparr>val = ibuf ! i, idx = i\<rparr>) [0..<len]"
    and sd: "sd = qs cmp data"
  shows "\<forall>i<len. \<forall>j<len. i \<le> j \<longrightarrow>
           (if descendFLAG \<noteq> 0 then float_le (val (sd ! j)) (val (sd ! i))
            else float_le (val (sd ! i)) (val (sd ! j)))"
proof -
  note pp = permuted_pairs [OF con data sd]
  have el: "\<forall>e\<in>set data. \<not> float_is_nan (val e)"
  proof
    fix e assume "e \<in> set data"
    then obtain k where k: "k < len" "e = \<lparr>val = ibuf ! k, idx = k\<rparr>" by (auto simp: data)
    then have "ibuf ! k \<in> set (take len ibuf)"
      using inb by (metis length_take min.absorb2 nth_mem nth_take)
    then show "\<not> float_is_nan (val e)"
      using k nan by simp
  qed
  then have "cmp_consistent cmp (set data)"
    unfolding cmp by (simp add: cmp_asc_float_consistent cmp_desc_float_consistent)
  moreover have "\<forall>cmp xs. cmp_consistent cmp (set xs) \<longrightarrow> sorted_wrt (\<lambda>x y. cmp x y \<le> 0) (qs cmp xs)"
    using con unfolding qsort_contract_def by (rule conjunct2)
  ultimately have so: "sorted_wrt (\<lambda>x y. cmp x y \<le> 0) sd"
    unfolding sd by blast
  have "set sd = set data" using pp(1) by (rule mset_eq_setD)
  then have el': "\<forall>e\<in>set sd. \<not> float_is_nan (val e)"
    using el by simp
  note len = pp(2)
  show ?thesis
  proof (intro allI impI)
    fix i j assume ij: "i < len" "j < len" "i \<le> j"
    then have ni: "\<not> float_is_nan (val (sd ! i))" and nj: "\<not> float_is_nan (val (sd ! j))"
      using el' len by simp_all
    show "if descendFLAG \<noteq> 0 then float_le (val (sd ! j)) (val (sd ! i))
          else float_le (val (sd ! i)) (val (sd ! j))"
    proof (cases "i = j")
      case True
      then show ?thesis using ni by (simp add: float_le_def)
    next
      case False
      then have "cmp (sd ! i) (sd ! j) \<le> 0"
        using so ij len by (simp add: sorted_wrt_iff_nth_less)
      then show ?thesis
        unfolding cmp using ni nj by (simp add: cmp_asc_float_le cmp_desc_float_le split: if_splits)
    qed
  qed
qed

lemma sortf_general:
  assumes con: "qsort_contract qs"
    and inb: "len \<le> length ibuf"
    and out: "out_vec = NULL \<or> (\<exists>obuf. out_vec = Ptr obuf \<and> len \<le> length obuf)"
    and new: "new_idices = NULL \<or> (\<exists>nbuf. new_idices = Ptr nbuf \<and> len \<le> length nbuf)"
  shows "\<exists>vals idxs.
           sortf u qs (Ptr ibuf) out_vec new_idices len descendFLAG
             = Some (if out_vec = NULL then overwritten (Ptr ibuf) vals else Ptr ibuf,
                     overwritten out_vec vals, overwritten new_idices idxs)
           \<and> length vals = len \<and> length idxs = len
           \<and> mset vals = mset (take len ibuf)
           \<and> ((\<forall>x\<in>set (take len ibuf). \<not> float_is_nan x) \<longrightarrow>
                (\<forall>i<len. \<forall>j<len. i \<le> j \<longrightarrow>
                   (if descendFLAG \<noteq> 0 then float_le (vals ! j) (vals ! i)
                    else float_le (vals ! i) (vals ! j))))
           \<and> (\<forall>i<len. idxs ! i < len \<and> ibuf ! (idxs ! i) = vals ! i)
           \<and> mset idxs = mset [0..<len]"
proof -
  define cmp where "cmp = (if descendFLAG \<noteq> 0 then cmp_desc_float else cmp_asc_float)"
  define data where "data = map (\<lambda>i. \<lparr>val = ibuf ! i, idx = i\<rparr>) [0..<len]"
  define sd where "sd = qs cmp data"
  note pp = permuted_pairs [OF con data_def sd_def]
  have run: "sortf u qs (Ptr ibuf) out_vec new_idices len descendFLAG
         = Some (if out_vec = NULL then overwritten (Ptr ibuf) (map val sd) else Ptr ibuf,
                 overwritten out_vec (map val sd), overwritten new_idices (map idx sd))"
    unfolding sd_def using pp(2) [unfolded sd_def]
    by (intro sortf_closed_form [OF inb cmp_def data_def _ out new])
  have "mset (map val sd) = mset (map val data)" using pp(1) by (metis mset_map)
  also have "map val data = take len ibuf"
    using inb by (intro nth_equalityI) (simp_all add: data_def)
  finally have mv: "mset (map val sd) = mset (take len ibuf)" .
  have "mset (map idx sd) = mset (map idx data)" using pp(1) by (metis mset_map)
  also have "map idx data = [0..<len]"
    by (intro nth_equalityI) (simp_all add: data_def)
  finally have mi: "mset (map idx sd) = mset [0..<len]" .
  have pos: "\<forall>i<len. map idx sd ! i < len \<and> ibuf ! (map idx sd ! i) = map val sd ! i"
    using pp(2,3) by simp
  have ord: "(\<forall>x\<in>set (take len ibuf). \<not> float_is_nan x) \<longrightarrow>
               (\<forall>i<len. \<forall>j<len. i \<le> j \<longrightarrow>
                 (if descendFLAG \<noteq> 0 then float_le (map val sd ! j) (map val sd ! i)
                  else float_le (map val sd ! i) (map val sd ! j)))"
  proof
    assume nan: "\<forall>x\<in>set (take len ibuf). \<not> float_is_nan x"
    show "\<forall>i<len. \<forall>j<len. i \<le> j \<longrightarrow>
                 (if descendFLAG \<noteq> 0 then float_le (map val sd ! j) (map val sd ! i)
                  else float_le (map val sd ! i) (map val sd ! j))"
      using sorted_pairs [OF con inb nan cmp_def data_def sd_def] pp(2) by simp
  qed
  show ?thesis
    by (intro exI [of _ "map val sd"] exI [of _ "map idx sd"] conjI run mv mi pos ord)
       (simp_all add: pp(2))
qed

text \<open>A strictly ordered list is the only ordered rearrangement of itself.\<close>

lemma sorted_wrt_unique:
  assumes "sorted_wrt (\<lambda>x y. le x y \<and> \<not> le y x) t" and "mset s = mset t" and "sorted_wrt le s"
  shows "s = t"
  using assms
proof (induction t arbitrary: s)
  case Nil
  then show ?case by simp
next
  case (Cons x t)
  from Cons.prems(2) have "s \<noteq> []" by auto
  then obtain y s' where s: "s = y # s'" by (cases s) auto
  have "y = x"
  proof (rule ccontr)
    assume ne: "y \<noteq> x"
    have "y \<in> set (x # t)" using Cons.prems(2) s by (metis list.set_intros(1) mset_eq_setD)
    then have "y \<in> set t" using ne by simp
    then have nle: "\<not> le y x" using Cons.prems(1) by simp
    have "x \<in> set (y # s')" using Cons.prems(2) s by (metis list.set_intros(1) mset_eq_setD)
    then have "x \<in> set s'" using ne by simp
    then have "le y x" using Cons.prems(3) s by simp
    with nle show False by simp
  qed
  moreover have "s' = t"
  proof (rule Cons.IH)
    show "sorted_wrt (\<lambda>x y. le x y \<and> \<not> le y x) t" using Cons.prems(1) by simp
    show "mset s' = mset t" using Cons.prems(2) s \<open>y = x\<close> by simp
    show "sorted_wrt le s'" using Cons.prems(3) s by simp
  qed
  ultimately show ?case using s by simp
qed

text \<open>The scenario of the specification: \<open>3.0, 1.0, 2.0\<close> in descending order.\<close>

lemma sortf_scenario:
  assumes con: "qsort_contract qs" and "length obuf = 3" and "length nbuf = 3"
  shows "sortf u qs (Ptr [0x40400000, 0x3F800000, 0x40000000]) (Ptr obuf) (Ptr nbuf) 3 1
         = Some (Ptr [0x40400000, 0x3F800000, 0x40000000],
                 Ptr [0x40400000, 0x40000000, 0x3F800000], Ptr [0, 2, 1])"
proof -
  let ?ibuf = "[0x40400000, 0x3F800000, 0x40000000] :: float list"
  let ?data = "[\<lparr>val = 0x40400000, idx = 0\<rparr>, \<lparr>val = 0x3F800000, idx = 1\<rparr>,
                \<lparr>val = 0x40000000, idx = 2\<rparr>] :: sort_float list"
  let ?t = "[\<lparr>val = 0x40400000, idx = 0\<rparr>, \<lparr>val = 0x40000000, idx = 2\<rparr>,
             \<lparr>val = 0x3F800000, idx = 1\<rparr>] :: sort_float list"
  have data: "?data = map (\<lambda>i. \<lparr>val = ?ibuf ! i, idx = i\<rparr>) [0..<3]"
    by (simp add: upt_rec)
  have nn: "\<not> float_is_nan 0x40400000" "\<not> float_is_nan 0x3F800000" "\<not> float_is_nan 0x40000000"
    by (simp_all add: float_is_nan_def)
  have lt: "float_lt 0x3F800000 0x40000000" "float_lt 0x40000000 0x40400000"
    "float_lt 0x3F800000 0x40400000"
    "\<not> float_lt 0x40000000 0x3F800000" "\<not> float_lt 0x40400000 0x40000000"
    "\<not> float_lt 0x40400000 0x3F800000"
    by (simp_all add: float_lt_def float_is_nan_def float_key_def)
  have "cmp_consistent cmp_desc_float (set ?data)"
    by (rule cmp_desc_float_consistent) (simp add: nn)
  moreover have "\<forall>cmp xs. cmp_consistent cmp (set xs) \<longrightarrow>
      sorted_wrt (\<lambda>x y. cmp x y \<le> 0) (qs cmp (xs :: sort_float list))"
    using con unfolding qsort_contract_def by (rule conjunct2)
  ultimately have so: "sorted_wrt (\<lambda>x y. cmp_desc_float x y \<le> 0) (qs cmp_desc_float ?data)"
    by blast
  have "\<forall>cmp xs. mset (qs cmp xs) = mset (xs :: sort_float list)"
    using con unfolding qsort_contract_def by (rule conjunct1)
  then have ms: "mset (qs cmp_desc_float ?data) = mset ?data"
    by blast
  have strict: "sorted_wrt (\<lambda>x y. cmp_desc_float x y \<le> 0 \<and> \<not> cmp_desc_float y x \<le> 0) ?t"
    using lt by (simp add: cmp_desc_float_def float_gt_def)
  have "mset (qs cmp_desc_float ?data) = mset ?t"
    using ms by (simp add: add_mset_commute)
  with strict so have sd: "qs cmp_desc_float ?data = ?t"
    by (intro sorted_wrt_unique [where le = "\<lambda>x y. cmp_desc_float x y \<le> 0"])
  have "sortf u qs (Ptr ?ibuf) (Ptr obuf) (Ptr nbuf) 3 1
         = Some (if Ptr obuf = NULL then overwritten (Ptr ?ibuf) (map val (qs cmp_desc_float ?data))
                 else Ptr ?ibuf,
                 overwritten (Ptr obuf) (map val (qs cmp_desc_float ?data)),
                 overwritten (Ptr nbuf) (map idx (qs cmp_desc_float ?data)))"
  proof (rule sortf_closed_form [OF _ _ data])
    show "length (qs cmp_desc_float ?data) = 3" unfolding sd by simp
  qed (use assms in simp_all)
  then show ?thesis unfolding sd using assms(2,3) by (simp add: overwritten_Ptr)
qed

text \<open>
  A NaN in the input: \<open>2.0, NaN, 1.0\<close> in ascending order. Both comparators answer \<open>0\<close>
  whenever one of the two values is a NaN, so the insertion sort, which keeps the promise of
  \<^verbatim>\<open>qsort\<close>, leaves the three values where they are: \<open>2.0\<close> stays before \<open>1.0\<close>.
\<close>

theorem sortf_nan_input_not_ascending:
  "qsort_contract (isort_by :: sort_float qsort_fn)
   \<and> sortf \<lparr>u_float = 0x7FC00000, u_double = 0, u_int = 9, u_info = 1\<rparr> isort_by
       (Ptr [0x40000000, 0x7FC00000, 0x3F800000]) NULL NULL 3 0
     = Some (Ptr [0x40000000, 0x7FC00000, 0x3F800000], NULL, NULL)
   \<and> float_is_nan 0x7FC00000
   \<and> \<not> float_le 0x40000000 0x3F800000"
proof -
  let ?u = "\<lparr>u_float = 0x7FC00000, u_double = 0, u_int = 9, u_info = 1\<rparr>"
  let ?ibuf = "[0x40000000, 0x7FC00000, 0x3F800000] :: float list"
  let ?data = "[\<lparr>val = 0x40000000, idx = 0\<rparr>, \<lparr>val = 0x7FC00000, idx = 1\<rparr>,
                \<lparr>val = 0x3F800000, idx = 2\<rparr>] :: sort_float list"
  have data: "?data = map (\<lambda>i. \<lparr>val = ?ibuf ! i, idx = i\<rparr>) [0..<3]"
    by (simp add: upt_rec)
  have nan: "float_is_nan 0x7FC00000"
    by (simp add: float_is_nan_def)
  have c: "cmp_asc_float \<lparr>val = 0x7FC00000, idx = i\<rparr> b = 0"
    "cmp_asc_float a \<lparr>val = 0x7FC00000, idx = i\<rparr> = 0" for a b i
    using nan by (simp_all add: cmp_asc_float_def float_lt_def float_gt_def)
  have sd: "isort_by cmp_asc_float ?data = ?data"
    by (simp add: isort_by_def c)
  have "sortf ?u isort_by (Ptr ?ibuf) NULL NULL 3 0
         = Some (if (NULL :: float ptr) = NULL
                 then overwritten (Ptr ?ibuf) (map val (isort_by cmp_asc_float ?data))
                 else Ptr ?ibuf,
                 overwritten NULL (map val (isort_by cmp_asc_float ?data)),
                 overwritten NULL (map idx (isort_by cmp_asc_float ?data)))"
  proof (rule sortf_closed_form [OF _ _ data])
    show "length (isort_by cmp_asc_float ?data) = 3" unfolding sd by simp
  qed simp_all
  then have run: "sortf ?u isort_by (Ptr ?ibuf) NULL NULL 3 0 = Some (Ptr ?ibuf, NULL, NULL)"
    unfolding sd by (simp add: overwritten_Ptr)
  have "\<not> float_le 0x40000000 0x3F800000"
    by (simp add: float_le_def float_is_nan_def float_key_def)
  with run nan isort_by_contract show ?thesis by blast
qed

text \<open>
  C8. With a \<^verbatim>\<open>qsort\<close> that rearranges, and orders when its comparator is consistent,
  \<open>sortf\<close> on \<open>len\<close> values returns; the values it writes (into \<open>out_vec\<close>, or over \<open>in_vec\<close>
  when \<open>out_vec\<close> is \<open>NULL\<close>) are a rearrangement of the input; the indices it writes (when
  \<open>new_idices\<close> is not \<open>NULL\<close>) are a permutation of \<open>0, \<dots>, len - 1\<close>, and index \<open>i\<close> is the
  input position of the value at output position \<open>i\<close>. When no input value is a NaN, the
  values are in non-increasing order if \<open>descendFLAG\<close> is set and in non-decreasing order
  if it is \<open>0\<close>. In particular \<open>3, 1, 2\<close> in descending order gives the values \<open>3, 2, 1\<close> and the
  indices \<open>0, 2, 1\<close>.
\<close>

theorem sortf_sorts_with_indices:
  assumes "qsort_contract qs"
  shows "(\<forall>ibuf out_vec new_idices len descendFLAG.
            len \<le> length ibuf \<longrightarrow>
            (out_vec = NULL \<or> (\<exists>obuf. out_vec = Ptr obuf \<and> len \<le> length obuf)) \<longrightarrow>
            (new_idices = NULL \<or> (\<exists>nbuf. new_idices = Ptr nbuf \<and> len \<le> length nbuf)) \<longrightarrow>
            (\<exists>vals idxs.
               sortf u qs (Ptr ibuf) out_vec new_idices len descendFLAG
                 = Some (if out_vec = NULL then overwritten (Ptr ibuf) vals else Ptr ibuf,
                         overwritten out_vec vals, overwritten new_idices idxs)
               \<and> length vals = len \<and> length idxs = len
               \<and> mset vals = mset (take len ibuf)
               \<and> ((\<forall>x\<in>set (take len ibuf). \<not> float_is_nan x) \<longrightarrow>
                    (\<forall>i<len. \<forall>j<len. i \<le> j \<longrightarrow>
                       (if descendFLAG \<noteq> 0 then float_le (vals ! j) (vals ! i)
                        else float_le (vals ! i) (vals ! j))))
               \<and> (\<forall>i<len. idxs ! i < len \<and> ibuf ! (idxs ! i) = vals ! i)
               \<and> mset idxs = mset [0..<len]))
       \<and> (\<forall>obuf nbuf. length obuf = 3 \<longrightarrow> length nbuf = 3 \<longrightarrow>
            sortf u qs (Ptr [0x40400000, 0x3F800000, 0x40000000]) (Ptr obuf) (Ptr nbuf) 3 1
              = Some (Ptr [0x40400000, 0x3F800000, 0x40000000],
                      Ptr [0x40400000, 0x40000000, 0x3F800000], Ptr [0, 2, 1]))"
proof (intro conjI allI impI)
  fix ibuf :: "float list" and out_vec :: "float ptr" and new_idices :: "nat ptr"
    and len :: nat and descendFLAG :: int
  assume "len \<le> length ibuf"
    "out_vec = NULL \<or> (\<exists>obuf. out_vec = Ptr obuf \<and> len \<le> length obuf)"
    "new_idices = NULL \<or> (\<exists>nbuf. new_idices = Ptr nbuf \<and> len \<le> length nbuf)"
  then show "\<exists>vals idxs.
               sortf u qs (Ptr ibuf) out_vec new_idices len descendFLAG
                 = Some (if out_vec = NULL then overwritten (Ptr ibuf) vals else Ptr ibuf,
                         overwritten out_vec vals, overwritten new_idices idxs)
               \<and> length vals = len \<and> length idxs = len
               \<and> mset vals = mset (take len ibuf)
               \<and> ((\<forall>x\<in>set (take len ibuf). \<not> float_is_nan x) \<longrightarrow>
                    (\<forall>i<len. \<forall>j<len. i \<le> j \<longrightarrow>
                       (if descendFLAG \<noteq> 0 then float_le (vals ! j) (vals ! i)
                        else float_le (vals ! i) (vals ! j))))
               \<and> (\<forall>i<len. idxs ! i < len \<and> ibuf ! (idxs ! i) = vals ! i)
               \<and> mset idxs = mset [0..<len]"
    by (rule sortf_general [OF assms])
next
  fix obuf :: "float list" and nbuf :: "nat list"
  assume "length obuf = 3" "length nbuf = 3"
  then show "sortf u qs (Ptr [0x40400000, 0x3F800000, 0x40000000]) (Ptr obuf) (Ptr nbuf) 3 1
              = Some (Ptr [0x40400000, 0x3F800000, 0x40000000],
                      Ptr [0x40400000, 0x40000000, 0x3F800000], Ptr [0, 2, 1])"
    by (rule sortf_scenario [OF assms])
qed

theorem sortf_sorts_with_indices_witness:
  "sortf \<lparr>u_float = 0x7FC00000, u_double = 0, u_int = 9, u_info = 1\<rparr> isort_by
     (Ptr [0x40400000, 0x3F800000, 0x40000000]) (Ptr [0, 0, 0]) (Ptr [7, 7, 7]) 3 1
   = Some (Ptr [0x40400000, 0x3F800000, 0x40000000],
           Ptr [0x40400000, 0x40000000, 0x3F800000], Ptr [0, 2, 1])
   \<and> (\<exists>vals. sortf \<lparr>u_float = 0x7FC00000, u_double = 0, u_int = 9, u_info = 1\<rparr> isort_by
                 (Ptr [0x40400000, 0x3F800000, 0x40000000]) NULL NULL 3 0
               = Some (Ptr vals, NULL, NULL)
             \<and> mset vals = mset [0x40400000, 0x3F800000, 0x40000000]
             \<and> float_le (vals ! 0) (vals ! 1) \<and> float_le (vals ! 1) (vals ! 2))"
proof -
  let ?u = "\<lparr>u_float = 0x7FC00000, u_double = 0, u_int = 9, u_info = 1\<rparr>"
  let ?ibuf = "[0x40400000, 0x3F800000, 0x40000000] :: float list"
  note th = sortf_sorts_with_indices [OF isort_by_contract, of ?u]
  have scen: "sortf ?u isort_by (Ptr ?ibuf) (Ptr [0, 0, 0]) (Ptr [7, 7, 7]) 3 1
     = Some (Ptr ?ibuf, Ptr [0x40400000, 0x40000000, 0x3F800000], Ptr [0, 2, 1])"
    using th [THEN conjunct2, rule_format, of "[0, 0, 0]" "[7, 7, 7]"] by simp
  have nn: "\<forall>x\<in>set (take 3 ?ibuf). \<not> float_is_nan x"
    by (simp add: float_is_nan_def)
  have "\<exists>vals idxs.
           sortf ?u isort_by (Ptr ?ibuf) NULL NULL 3 0
             = Some (if (NULL :: float ptr) = NULL then overwritten (Ptr ?ibuf) vals else Ptr ?ibuf,
                     overwritten NULL vals, overwritten NULL idxs)
           \<and> length vals = 3 \<and> length idxs = 3
           \<and> mset vals = mset (take 3 ?ibuf)
           \<and> ((\<forall>x\<in>set (take 3 ?ibuf). \<not> float_is_nan x) \<longrightarrow>
                (\<forall>i<3. \<forall>j<3. i \<le> j \<longrightarrow>
                   (if (0::int) \<noteq> 0 then float_le (vals ! j) (vals ! i)
                    else float_le (vals ! i) (vals ! j))))
           \<and> (\<forall>i<3. idxs ! i < 3 \<and> ?ibuf ! (idxs ! i) = vals ! i)
           \<and> mset idxs = mset [0..<3]"
    by (rule th [THEN conjunct1, rule_format, of 3 ?ibuf NULL NULL 0]) simp_all
  then obtain vals idxs where
    r: "sortf ?u isort_by (Ptr ?ibuf) NULL NULL 3 0
          = Some (if (NULL :: float ptr) = NULL then overwritten (Ptr ?ibuf) vals else Ptr ?ibuf,
                  overwritten NULL vals, overwritten NULL idxs)"
    and l: "length vals = 3"
    and m: "mset vals = mset (take 3 ?ibuf)"
    and ord': "(\<forall>x\<in>set (take 3 ?ibuf). \<not> float_is_nan x) \<longrightarrow>
                (\<forall>i<3. \<forall>j<3. i \<le> j \<longrightarrow>
                   (if (0::int) \<noteq> 0 then float_le (vals ! j) (vals ! i)
                    else float_le (vals ! i) (vals ! j)))"
    by (elim exE conjE) (rule that; assumption)
  from ord' nn have ord: "\<forall>i<3. \<forall>j<3. i \<le> j \<longrightarrow>
                   (if (0::int) \<noteq> 0 then float_le (vals ! j) (vals ! i)
                    else float_le (vals ! i) (vals ! j))"
    by (rule mp)
  have "float_le (vals ! 0) (vals ! 1)" "float_le (vals ! 1) (vals ! 2)"
    using ord [rule_format, of 0 1] ord [rule_format, of 1 2] by simp_all
  moreover have "sortf ?u isort_by (Ptr ?ibuf) NULL NULL 3 0 = Some (Ptr vals, NULL, NULL)"
    using r l by (simp add: overwritten_Ptr)
  moreover have "mset vals = mset ?ibuf" using m by simp
  ultimately show ?thesis using scen by blast
qed

section \<open>General eigendecomposition\<close>

lemma same_shape_simps [simp]:
  "same_shape NULL q \<longleftrightarrow> q = NULL"
  "same_shape (Ptr a) (Ptr b) \<longleftrightarrow> length b = length a"
  "same_shape (Ptr a) NULL \<longleftrightarrow> False"
  by (simp_all add: same_shape_def)

lemma same_shape_refl [simp]: "same_shape p p"
  by (cases p) simp_all

lemma same_shape_trans: "same_shape p q \<Longrightarrow> same_shape q r \<Longrightarrow> same_shape p r"
  by (cases p; cases q; cases r) simp_all

text \<open>One row of \<open>VL\<close> or \<open>VR\<close>: skipped for \<open>NULL\<close>, else \<open>dim\<close> stores inside the buffer.\<close>

lemma ceig_row:
  assumes p: "p = NULL \<or> (\<exists>b. p = Ptr b \<and> length b = dim * dim)"
    and i: "i < dim"
    and idx: "length idxs = dim" "\<forall>j<dim. idxs ! j < dim"
    and v: "length vbuf = dim * dim"
  shows "\<exists>p'. (if p \<noteq> NULL then
                for_loop 0 dim
                  (\<lambda>j V. do { k \<leftarrow> load (Ptr idxs) j;
                              x \<leftarrow> load (Ptr vbuf) (k * dim + i);
                              store V (i * dim + j) x }) p
              else Some p) = Some p' \<and> same_shape p p'"
proof (cases p)
  case NULL
  then show ?thesis by simp
next
  case (Ptr b)
  then have lb: "length b = dim * dim" using p by simp
  have "\<exists>d'. for_loop 0 dim
                  (\<lambda>j V. do { k \<leftarrow> load (Ptr idxs) j;
                              x \<leftarrow> load (Ptr vbuf) (k * dim + i);
                              store V (i * dim + j) x }) (Ptr b) = Some (Ptr d')
           \<and> length d' = length b
           \<and> (\<forall>j<dim. d' ! (i * dim + j) = vbuf ! (idxs ! j * dim + i))
           \<and> (\<forall>k<length b. (\<forall>j<dim. i * dim + j \<noteq> k) \<longrightarrow> d' ! k = b ! k)"
  proof (rule store_loop)
    fix j d assume j: "j < dim" and "length (d::'a list) = length b"
    have "idxs ! j * dim + i < dim * dim" using idx_range [of "idxs ! j" dim i dim] idx j i by simp
    then show "(do { k \<leftarrow> load (Ptr idxs) j;
                    x \<leftarrow> load (Ptr vbuf) (k * dim + i);
                    store (Ptr d) (i * dim + j) x })
               = store (Ptr d) (i * dim + j) (vbuf ! (idxs ! j * dim + i))"
      using j idx(1) v by (simp add: load_Ptr)
  next
    fix j assume "j < dim"
    then show "i * dim + j < length b" using idx_range [of i dim j dim] i lb by simp
  qed simp
  then show ?thesis using Ptr by auto
qed

lemma ceig_output_loop:
  fixes VL VR D :: "float_complex ptr"
  assumes VL: "VL = NULL \<or> (\<exists>b. VL = Ptr b \<and> length b = dim * dim)"
    and VR: "VR = NULL \<or> (\<exists>b. VR = Ptr b \<and> length b = dim * dim)"
    and D: "D = NULL \<or> (\<exists>b. D = Ptr b \<and> length b = dim * dim)"
    and idx: "length idxs = dim" "\<forall>j<dim. idxs ! j < dim"
    and vl: "length vlbuf = dim * dim" and vr: "length vrbuf = dim * dim"
    and wr: "length wr = dim"
  shows "\<exists>VL' VR' D'.
     for_loop 0 dim
         (\<lambda>i (VL, VR, D). do {
            VL \<leftarrow> (if VL \<noteq> NULL then
                     for_loop 0 dim
                       (\<lambda>j VL. do { k \<leftarrow> load (Ptr idxs) j;
                                   x \<leftarrow> load (Ptr vlbuf) (k * dim + i);
                                   store VL (i * dim + j) x }) VL
                   else Some VL);
            VR \<leftarrow> (if VR \<noteq> NULL then
                     for_loop 0 dim
                       (\<lambda>j VR. do { k \<leftarrow> load (Ptr idxs) j;
                                   x \<leftarrow> load (Ptr vrbuf) (k * dim + i);
                                   store VR (i * dim + j) x }) VR
                   else Some VR);
            D \<leftarrow> (if D \<noteq> NULL then do { x \<leftarrow> load (Ptr wr) i; store D (i * dim + i) (cmplxf x 0) }
                  else Some D);
            Some (VL, VR, D) })
         (VL, VR, D) = Some (VL', VR', D')
     \<and> same_shape VL VL' \<and> same_shape VR VR' \<and> same_shape D D'
     \<and> (\<forall>d d'. D = Ptr d \<longrightarrow> D' = Ptr d' \<longrightarrow>
           (\<forall>i<dim. \<forall>j<dim. d' ! (i * dim + j)
                = (if i = j then cmplxf (wr ! i) 0 else d ! (i * dim + j))))"
proof -
  let ?body = "\<lambda>i (VL, VR, D). do {
            VL \<leftarrow> (if VL \<noteq> NULL then
                     for_loop 0 dim
                       (\<lambda>j VL. do { k \<leftarrow> load (Ptr idxs) j;
                                   x \<leftarrow> load (Ptr vlbuf) (k * dim + i);
                                   store VL (i * dim + j) x }) VL
                   else Some VL);
            VR \<leftarrow> (if VR \<noteq> NULL then
                     for_loop 0 dim
                       (\<lambda>j VR. do { k \<leftarrow> load (Ptr idxs) j;
                                   x \<leftarrow> load (Ptr vrbuf) (k * dim + i);
                                   store VR (i * dim + j) x }) VR
                   else Some VR);
            D \<leftarrow> (if D \<noteq> NULL then do { x \<leftarrow> load (Ptr wr) i; store D (i * dim + i) (cmplxf x 0) }
                  else Some D);
            Some (VL, VR, D) }"
  define Dinv where "Dinv = (\<lambda>(i::nat) D'. same_shape D D' \<and>
      (\<forall>d d'. D = Ptr d \<longrightarrow> D' = Ptr d' \<longrightarrow>
           (\<forall>i'<dim. \<forall>j<dim. d' ! (i' * dim + j)
                = (if i' = j \<and> i' < i then cmplxf (wr ! i') 0 else d ! (i' * dim + j)))))"
  define I where "I = (\<lambda>i s. \<exists>VL' VR' D'. s = (VL', VR', D')
      \<and> same_shape VL VL' \<and> same_shape VR VR' \<and> Dinv i D')"
  have shape: "q = NULL \<or> (\<exists>b. q = Ptr b \<and> length b = dim * dim)"
    if "p = NULL \<or> (\<exists>b. p = Ptr b \<and> length b = dim * dim)" "same_shape p q"
    for p q :: "float_complex ptr"
    using that by (cases p; cases q) auto
  have Dstep: "\<exists>D''. (if D' \<noteq> NULL then do { x \<leftarrow> load (Ptr wr) i; store D' (i * dim + i) (cmplxf x 0) }
                      else Some D') = Some D'' \<and> Dinv (Suc i) D''"
    if i: "i < dim" and inv: "Dinv i D'" for i D'
  proof (cases D')
    case NULL
    then show ?thesis using inv by (simp add: Dinv_def)
  next
    case (Ptr d')
    then obtain d where d: "D = Ptr d" "length d' = length d"
      using inv by (cases D) (simp_all add: Dinv_def)
    then have ld: "length d' = dim * dim" using D by simp
    have ii: "i * dim + i < dim * dim" using idx_range [of i dim i dim] i by simp
    have run: "(if D' \<noteq> NULL then do { x \<leftarrow> load (Ptr wr) i; store D' (i * dim + i) (cmplxf x 0) }
                else Some D') = Some (Ptr (d'[i * dim + i := cmplxf (wr ! i) 0]))"
      using Ptr i wr ii ld by (simp add: load_Ptr store_Ptr)
    have old: "\<forall>i'<dim. \<forall>j<dim. d' ! (i' * dim + j)
                = (if i' = j \<and> i' < i then cmplxf (wr ! i') 0 else d ! (i' * dim + j))"
      using inv Ptr d(1) by (simp add: Dinv_def)
    have "Dinv (Suc i) (Ptr (d'[i * dim + i := cmplxf (wr ! i) 0]))"
      unfolding Dinv_def
    proof (intro conjI allI impI)
      show "same_shape D (Ptr (d'[i * dim + i := cmplxf (wr ! i) 0]))" using d by simp
    next
      fix e e' i' j
      assume e: "D = Ptr e" "Ptr (d'[i * dim + i := cmplxf (wr ! i) 0]) = Ptr e'"
        and a: "i' < dim" "j < dim"
      have r: "i' * dim + j < length d'" using idx_range [of i' dim j dim] a ld by simp
      show "e' ! (i' * dim + j)
              = (if i' = j \<and> i' < Suc i then cmplxf (wr ! i') 0 else e ! (i' * dim + j))"
      proof (cases "i' = i \<and> j = i")
        case True
        then show ?thesis using r e(2) by auto
      next
        case False
        then have "i * dim + i \<noteq> i' * dim + j" using idx_inj [of i dim j i i'] i a by blast
        then have "e' ! (i' * dim + j) = d' ! (i' * dim + j)" using e(2) by auto
        then show ?thesis using old a False e(1) d(1) by (auto simp: less_Suc_eq)
      qed
    qed
    with run show ?thesis by blast
  qed
  have "\<exists>s'. for_loop 0 dim ?body (VL, VR, D) = Some s' \<and> I dim s'"
  proof (rule for_loop_rule [where I = I])
    show "I 0 (VL, VR, D)" by (simp add: I_def Dinv_def)
    show "0 \<le> dim" by simp
    fix i s assume i: "i < dim" and "I i s"
    then obtain VL' VR' D' where s: "s = (VL', VR', D')"
      and sl: "same_shape VL VL'" and sr: "same_shape VR VR'" and di: "Dinv i D'"
      unfolding I_def by blast
    obtain VL'' where l: "(if VL' \<noteq> NULL then
                     for_loop 0 dim
                       (\<lambda>j VL. do { k \<leftarrow> load (Ptr idxs) j;
                                   x \<leftarrow> load (Ptr vlbuf) (k * dim + i);
                                   store VL (i * dim + j) x }) VL'
                   else Some VL') = Some VL''" "same_shape VL' VL''"
      using ceig_row [OF shape [OF VL sl] i idx vl] by blast
    obtain VR'' where r: "(if VR' \<noteq> NULL then
                     for_loop 0 dim
                       (\<lambda>j VR. do { k \<leftarrow> load (Ptr idxs) j;
                                   x \<leftarrow> load (Ptr vrbuf) (k * dim + i);
                                   store VR (i * dim + j) x }) VR'
                   else Some VR') = Some VR''" "same_shape VR' VR''"
      using ceig_row [OF shape [OF VR sr] i idx vr] by blast
    obtain D'' where d: "(if D' \<noteq> NULL then do { x \<leftarrow> load (Ptr wr) i; store D' (i * dim + i) (cmplxf x 0) }
                      else Some D') = Some D''" "Dinv (Suc i) D''"
      using Dstep [OF i di] by blast
    have "?body i s = Some (VL'', VR'', D'')"
      unfolding s using l(1) r(1) d(1) by simp
    moreover have "I (Suc i) (VL'', VR'', D'')"
      unfolding I_def using same_shape_trans [OF sl l(2)] same_shape_trans [OF sr r(2)] d(2) by simp
    ultimately show "\<exists>s'. ?body i s = Some s' \<and> I (Suc i) s'" by blast
  qed
  then obtain VL' VR' D' where res: "for_loop 0 dim ?body (VL, VR, D) = Some (VL', VR', D')"
    "same_shape VL VL'" "same_shape VR VR'" "Dinv dim D'"
    unfolding I_def by blast
  have "same_shape D D'" using res(4) by (simp add: Dinv_def)
  moreover have "\<forall>d d'. D = Ptr d \<longrightarrow> D' = Ptr d' \<longrightarrow>
           (\<forall>i<dim. \<forall>j<dim. d' ! (i * dim + j)
                = (if i = j then cmplxf (wr ! i) 0 else d ! (i * dim + j)))"
    using res(4) by (simp add: Dinv_def)
  ultimately show ?thesis using res(1-3) by blast
qed

lemma memset_complex_if:
  assumes "P = NULL \<or> (\<exists>b. P = Ptr b \<and> length b = dim * dim)" and "dim * dim \<le> INT_MAX"
  shows "(if P \<noteq> NULL then do { sz \<leftarrow> int_mul dim dim;
                                  memset_complex P 0 (sz * sizeof_float_complex) }
          else Some P)
           = Some (overwritten P (replicate (dim * dim) (0, 0)))"
proof (cases P)
  case NULL
  then show ?thesis by simp
next
  case (Ptr b)
  then have "length b = dim * dim" using assms(1) by simp
  then show ?thesis
    using Ptr memset_complex_zero [of "dim * dim" b]
    by (simp add: overwritten_Ptr int_mul_ok [OF assms(2)])
qed

lemma two_dim_int:
  assumes "dim * dim \<le> INT_MAX"
  shows "2 * dim \<le> INT_MAX"
proof (cases "dim < 2")
  case True
  then show ?thesis by (simp add: INT_MAX_def)
next
  case False
  then have "2 * dim \<le> dim * dim" by (intro mult_le_mono1) simp
  then show ?thesis using assms by (rule order_trans)
qed

text \<open>
  The whole driver, for output pointers that are \<open>NULL\<close> or hold \<open>dim \<times> dim\<close> elements each:
  \<open>vals\<close> are the real parts of the eigenvalues as \<open>sortf\<close> leaves them.
\<close>

lemma utility_ceig_run:
  fixes VL VR D :: "float_complex ptr"
  assumes A: "length Abuf = dim * dim"
    and rng: "dim * dim \<le> INT_MAX"
    and r: "r = cgeev_call cfg cgeev dim (col_major dim dim Abuf) (map (un_w g) [0..<dim])
                  (map (un_vl g) [0..<dim * dim]) (map (un_vr g) [0..<dim * dim]) (u_info u)"
    and lens: "length (gv_w r) = dim" "length (gv_vl r) = dim * dim" "length (gv_vr r) = dim * dim"
    and con: "qsort_contract qs"
    and VL: "VL = NULL \<or> (\<exists>b. VL = Ptr b \<and> length b = dim * dim)"
    and VR: "VR = NULL \<or> (\<exists>b. VR = Ptr b \<and> length b = dim * dim)"
    and D: "D = NULL \<or> (\<exists>b. D = Ptr b \<and> length b = dim * dim)"
  shows "\<exists>VL' VR' D' vals.
      utility_ceig cfg cgeev cmplxf qs u g (Ptr Abuf) dim sortDecFLAG VL VR D = Some (VL', VR', D')
      \<and> same_shape VL VL' \<and> same_shape VR VR' \<and> same_shape D D'
      \<and> length vals = dim \<and> mset vals = mset (map fst (gv_w r))
      \<and> ((\<forall>z\<in>set (gv_w r). \<not> float_is_nan (fst z)) \<longrightarrow>
           (\<forall>i<dim. \<forall>j<dim. i \<le> j \<longrightarrow>
              (if sortDecFLAG \<noteq> 0 then float_le (vals ! j) (vals ! i)
               else float_le (vals ! i) (vals ! j))))
      \<and> (\<forall>d'. D' = Ptr d' \<longrightarrow>
            (\<forall>i<dim. \<forall>j<dim. d' ! (i * dim + j)
               = (if i = j \<and> \<not> gv_info r > 0 then cmplxf (vals ! i) 0 else (0, 0))))
      \<and> (gv_info r > 0 \<longrightarrow>
            VL' = overwritten VL (replicate (dim * dim) (0, 0))
            \<and> VR' = overwritten VR (replicate (dim * dim) (0, 0))
            \<and> D' = overwritten D (replicate (dim * dim) (0, 0)))"
proof -
  let ?J = "(u_float u, u_float u)"
  let ?wr = "map fst (gv_w r)"
  have loops: "for_loop 0 dim
           (\<lambda>i a. for_loop 0 dim
              (\<lambda>j a. do { x \<leftarrow> load (Ptr Abuf) (j * dim + i); store a (i * dim + j) x }) a)
           (Ptr (replicate (dim * dim) ?J))
         = Some (Ptr (col_major dim dim Abuf))"
    using A by (intro transpose_square_loops) simp_all
  have wrl: "for_loop 0 dim
             (\<lambda>i wr. do { z \<leftarrow> load (Ptr (gv_w r)) i; store wr i (crealf z) })
             (Ptr (replicate dim (u_float u))) = Some (Ptr ?wr)"
  proof -
    have "for_loop 0 dim
             (\<lambda>i wr. do { z \<leftarrow> load (Ptr (gv_w r)) i; store wr i (crealf z) })
             (Ptr (replicate dim (u_float u)))
          = Some (Ptr (map (\<lambda>i. crealf (gv_w r ! i)) [0..<dim] @ drop dim (replicate dim (u_float u))))"
      using lens(1) by (intro for_loop_map) (simp_all add: ptr_simps)
    moreover have "map (\<lambda>i. crealf (gv_w r ! i)) [0..<dim] = ?wr"
      using lens(1) by (intro nth_equalityI) (simp_all add: crealf_def)
    ultimately show ?thesis by simp
  qed
  have "\<exists>vals idxs.
           sortf u qs (Ptr ?wr) NULL (Ptr (replicate dim (u_int u))) dim sortDecFLAG
             = Some (if (NULL::float ptr) = NULL then overwritten (Ptr ?wr) vals else Ptr ?wr,
                     overwritten NULL vals, overwritten (Ptr (replicate dim (u_int u))) idxs)
           \<and> length vals = dim \<and> length idxs = dim
           \<and> mset vals = mset (take dim ?wr)
           \<and> ((\<forall>x\<in>set (take dim ?wr). \<not> float_is_nan x) \<longrightarrow>
                (\<forall>i<dim. \<forall>j<dim. i \<le> j \<longrightarrow>
                   (if sortDecFLAG \<noteq> 0 then float_le (vals ! j) (vals ! i)
                    else float_le (vals ! i) (vals ! j))))
           \<and> (\<forall>i<dim. idxs ! i < dim \<and> ?wr ! (idxs ! i) = vals ! i)
           \<and> mset idxs = mset [0..<dim]"
    using lens(1) by (intro sortf_general [OF con]) simp_all
  then obtain vals idxs where
    srt: "sortf u qs (Ptr ?wr) NULL (Ptr (replicate dim (u_int u))) dim sortDecFLAG
             = Some (if (NULL::float ptr) = NULL then overwritten (Ptr ?wr) vals else Ptr ?wr,
                     overwritten NULL vals, overwritten (Ptr (replicate dim (u_int u))) idxs)"
    and lv: "length vals = dim" and li: "length idxs = dim"
    and mv: "mset vals = mset (take dim ?wr)"
    and ord': "(\<forall>x\<in>set (take dim ?wr). \<not> float_is_nan x) \<longrightarrow>
                (\<forall>i<dim. \<forall>j<dim. i \<le> j \<longrightarrow>
                   (if sortDecFLAG \<noteq> 0 then float_le (vals ! j) (vals ! i)
                    else float_le (vals ! i) (vals ! j)))"
    and ix: "\<forall>i<dim. idxs ! i < dim \<and> ?wr ! (idxs ! i) = vals ! i"
    by (elim exE conjE) (rule that; assumption)
  have ord: "(\<forall>z\<in>set (gv_w r). \<not> float_is_nan (fst z)) \<longrightarrow>
           (\<forall>i<dim. \<forall>j<dim. i \<le> j \<longrightarrow>
              (if sortDecFLAG \<noteq> 0 then float_le (vals ! j) (vals ! i)
               else float_le (vals ! i) (vals ! j)))"
    using ord' lens(1) by simp
  have srt': "sortf u qs (Ptr ?wr) NULL (Ptr (replicate dim (u_int u))) dim sortDecFLAG
                = Some (Ptr vals, NULL, Ptr idxs)"
    using srt lv li lens(1) by (simp add: overwritten_Ptr)
  let ?Z = "replicate (dim * dim) ((0, 0) :: float_complex)"
  let ?D0 = "overwritten D ?Z"
  have D0: "?D0 = NULL \<or> (\<exists>b. ?D0 = Ptr b \<and> length b = dim * dim)"
    using D by (auto simp: overwritten_Ptr)
  have pre: "utility_ceig cfg cgeev cmplxf qs u g (Ptr Abuf) dim sortDecFLAG VL VR D =
      (if gv_info r > 0 then Some (overwritten VL ?Z, overwritten VR ?Z, ?D0)
       else
         for_loop 0 dim
         (\<lambda>i (VL, VR, D). do {
            VL \<leftarrow> (if VL \<noteq> NULL then
                     for_loop 0 dim
                       (\<lambda>j VL. do { k \<leftarrow> load (Ptr idxs) j;
                                   x \<leftarrow> load (Ptr (gv_vl r)) (k * dim + i);
                                   store VL (i * dim + j) x }) VL
                   else Some VL);
            VR \<leftarrow> (if VR \<noteq> NULL then
                     for_loop 0 dim
                       (\<lambda>j VR. do { k \<leftarrow> load (Ptr idxs) j;
                                   x \<leftarrow> load (Ptr (gv_vr r)) (k * dim + i);
                                   store VR (i * dim + j) x }) VR
                   else Some VR);
            D \<leftarrow> (if D \<noteq> NULL then do { x \<leftarrow> load (Ptr vals) i; store D (i * dim + i) (cmplxf x 0) }
                  else Some D);
            Some (VL, VR, D) })
         (VL, VR, ?D0))"
    unfolding utility_ceig_def Let_def
    using lens
    by (simp add: int_mul_ok [OF rng] int_mul_ok [OF two_dim_int [OF rng]] malloc_def malloc_cells_def
          loops deref_def backend_wrote_def r [symmetric] wrl srt'
          memset_complex_if [OF D rng] memset_complex_if [OF VL rng] memset_complex_if [OF VR rng])
  have mv': "mset vals = mset ?wr" using mv lens(1) by simp
  show ?thesis
  proof (cases "gv_info r > 0")
    case True
    have z: "?Z ! (i * dim + j) = (0, 0)" if "i < dim" "j < dim" for i j
      using idx_range [OF that] by simp
    have "same_shape VL (overwritten VL ?Z)" "same_shape VR (overwritten VR ?Z)" "same_shape D ?D0"
      using VL VR D by (auto simp: overwritten_Ptr)
    moreover have "\<forall>d'. ?D0 = Ptr d' \<longrightarrow>
            (\<forall>i<dim. \<forall>j<dim. d' ! (i * dim + j)
               = (if i = j \<and> \<not> gv_info r > 0 then cmplxf (vals ! i) 0 else (0, 0)))"
      using D True z by (auto simp: overwritten_Ptr)
    ultimately show ?thesis using pre True lv mv' ord by auto
  next
    case False
    have ixb: "\<forall>j<dim. idxs ! j < dim" using ix by simp
    obtain VL' VR' D' where out: "for_loop 0 dim
         (\<lambda>i (VL, VR, D). do {
            VL \<leftarrow> (if VL \<noteq> NULL then
                     for_loop 0 dim
                       (\<lambda>j VL. do { k \<leftarrow> load (Ptr idxs) j;
                                   x \<leftarrow> load (Ptr (gv_vl r)) (k * dim + i);
                                   store VL (i * dim + j) x }) VL
                   else Some VL);
            VR \<leftarrow> (if VR \<noteq> NULL then
                     for_loop 0 dim
                       (\<lambda>j VR. do { k \<leftarrow> load (Ptr idxs) j;
                                   x \<leftarrow> load (Ptr (gv_vr r)) (k * dim + i);
                                   store VR (i * dim + j) x }) VR
                   else Some VR);
            D \<leftarrow> (if D \<noteq> NULL then do { x \<leftarrow> load (Ptr vals) i; store D (i * dim + i) (cmplxf x 0) }
                  else Some D);
            Some (VL, VR, D) })
         (VL, VR, ?D0) = Some (VL', VR', D')"
      and sh: "same_shape VL VL'" "same_shape VR VR'" "same_shape ?D0 D'"
      and dg: "\<forall>d d'. ?D0 = Ptr d \<longrightarrow> D' = Ptr d' \<longrightarrow>
           (\<forall>i<dim. \<forall>j<dim. d' ! (i * dim + j)
                = (if i = j then cmplxf (vals ! i) 0 else d ! (i * dim + j)))"
      using ceig_output_loop [where cmplxf = cmplxf, OF VL VR D0 li ixb lens(2,3) lv]
      by (elim exE conjE) (rule that; assumption)
    have "same_shape D ?D0" using D by (auto simp: overwritten_Ptr)
    then have shD: "same_shape D D'" using sh(3) by (rule same_shape_trans)
    have "\<forall>d'. D' = Ptr d' \<longrightarrow>
            (\<forall>i<dim. \<forall>j<dim. d' ! (i * dim + j)
               = (if i = j \<and> \<not> gv_info r > 0 then cmplxf (vals ! i) 0 else (0, 0)))"
    proof (intro allI impI)
      fix d' i j assume d': "D' = Ptr d'" and ij: "i < dim" "j < dim"
      then obtain d where d: "D = Ptr d" "length d = dim * dim"
        using shD D by (cases D) auto
      then have "?D0 = Ptr ?Z" by (simp add: overwritten_Ptr)
      then have "d' ! (i * dim + j) = (if i = j then cmplxf (vals ! i) 0 else ?Z ! (i * dim + j))"
        using dg d' ij by blast
      moreover have "?Z ! (i * dim + j) = (0, 0)" using idx_range [OF ij] by simp
      ultimately show "d' ! (i * dim + j)
               = (if i = j \<and> \<not> gv_info r > 0 then cmplxf (vals ! i) 0 else (0, 0))"
        using False by simp
    qed
    then show ?thesis using pre False out sh(1,2) shD lv mv' ord by auto
  qed
qed

text \<open>Where \<open>dim * dim\<close> is not an \<^verbatim>\<open>int\<close>, the size of \<open>vl\<close> already overflows.\<close>

lemma utility_ceig_overflow:
  assumes "INT_MAX < dim * dim"
  shows "utility_ceig cfg cgeev cmplxf qs u g A dim sortDecFLAG VL VR D = None"
  unfolding utility_ceig_def Let_def by (simp add: int_mul_overflow [OF assms])

text \<open>
  C9. \<open>utility_ceig\<close> with a non-null \<open>D\<close>, on a backend result \<open>r\<close> that is not a failure and
  a \<open>dim\<close> whose square is an \<^verbatim>\<open>int\<close>: the call returns; \<open>D\<close> is zero off the diagonal; its
  diagonal entry \<open>i\<close> is \<open>cmplxf(vals[i], 0.0f)\<close>, where \<open>vals\<close> is a rearrangement of the first
  components of the backend's eigenvalues, their second components entering nowhere, and is
  in the requested order when no real part is a NaN. With a \<open>cmplxf\<close> that gives the
  imaginary part it was handed, every entry of \<open>D\<close> has the imaginary part \<open>+0.0\<close>.
\<close>

theorem utility_ceig_diagonal_real_parts:
  fixes VL VR :: "float_complex ptr"
  assumes "length Abuf = dim * dim"
    and "dim * dim \<le> INT_MAX"
    and "r = cgeev_call cfg cgeev dim (col_major dim dim Abuf) (map (un_w g) [0..<dim])
               (map (un_vl g) [0..<dim * dim]) (map (un_vr g) [0..<dim * dim]) (u_info u)"
    and "length (gv_w r) = dim" and "length (gv_vl r) = dim * dim" and "length (gv_vr r) = dim * dim"
    and "qsort_contract qs"
    and "VL = NULL \<or> (\<exists>b. VL = Ptr b \<and> length b = dim * dim)"
    and "VR = NULL \<or> (\<exists>b. VR = Ptr b \<and> length b = dim * dim)"
    and "length dbuf = dim * dim"
    and "\<not> gv_info r > 0"
    and "\<forall>x. snd (cmplxf x 0) = 0"
  shows "\<exists>VL' VR' d' vals.
      utility_ceig cfg cgeev cmplxf qs u g (Ptr Abuf) dim sortDecFLAG VL VR (Ptr dbuf)
        = Some (VL', VR', Ptr d')
      \<and> length d' = dim * dim
      \<and> length vals = dim \<and> mset vals = mset (map fst (gv_w r))
      \<and> ((\<forall>z\<in>set (gv_w r). \<not> float_is_nan (fst z)) \<longrightarrow>
           (\<forall>i<dim. \<forall>j<dim. i \<le> j \<longrightarrow>
              (if sortDecFLAG \<noteq> 0 then float_le (vals ! j) (vals ! i)
               else float_le (vals ! i) (vals ! j))))
      \<and> (\<forall>i<dim. d' ! (i * dim + i) = cmplxf (vals ! i) 0)
      \<and> (\<forall>i<dim. \<forall>j<dim. i \<noteq> j \<longrightarrow> d' ! (i * dim + j) = (0, 0))
      \<and> (\<forall>i<dim. \<forall>j<dim. snd (d' ! (i * dim + j)) = 0)"
proof -
  have D: "Ptr dbuf = NULL \<or> (\<exists>b. Ptr dbuf = Ptr b \<and> length b = dim * dim)"
    using assms(10) by simp
  obtain VL' VR' D' vals where
    run: "utility_ceig cfg cgeev cmplxf qs u g (Ptr Abuf) dim sortDecFLAG VL VR (Ptr dbuf)
            = Some (VL', VR', D')"
    and sh: "same_shape (Ptr dbuf) D'"
    and lv: "length vals = dim" and mv: "mset vals = mset (map fst (gv_w r))"
    and ord: "(\<forall>z\<in>set (gv_w r). \<not> float_is_nan (fst z)) \<longrightarrow>
           (\<forall>i<dim. \<forall>j<dim. i \<le> j \<longrightarrow>
              (if sortDecFLAG \<noteq> 0 then float_le (vals ! j) (vals ! i)
               else float_le (vals ! i) (vals ! j)))"
    and dg: "\<forall>d'. D' = Ptr d' \<longrightarrow>
            (\<forall>i<dim. \<forall>j<dim. d' ! (i * dim + j)
               = (if i = j \<and> \<not> gv_info r > 0 then cmplxf (vals ! i) 0 else (0, 0)))"
    using utility_ceig_run [where cmplxf = cmplxf and sortDecFLAG = sortDecFLAG, OF assms(1-9) D]
    by (elim exE conjE) (rule that; assumption)
  from sh obtain d' where d': "D' = Ptr d'" "length d' = dim * dim"
    using assms(10) by (cases D') simp_all
  have ent: "\<forall>i<dim. \<forall>j<dim. d' ! (i * dim + j) = (if i = j then cmplxf (vals ! i) 0 else (0, 0))"
    using dg d'(1) assms(11) by simp
  have "\<forall>i<dim. d' ! (i * dim + i) = cmplxf (vals ! i) 0"
    using ent by simp
  moreover have "\<forall>i<dim. \<forall>j<dim. i \<noteq> j \<longrightarrow> d' ! (i * dim + j) = (0, 0)"
    using ent by simp
  moreover have "\<forall>i<dim. \<forall>j<dim. snd (d' ! (i * dim + j)) = 0"
    using ent assms(12) by simp
  ultimately show ?thesis
    using run d' lv mv ord by blast
qed

text \<open>
  The diagonal matrix with the eigenvalues \<open>1 + 5i\<close> and \<open>2 - 3i\<close>, in descending order, with
  \<open>cmplxf\<close> the pairing of its two arguments: the diagonal of \<open>D\<close> is \<open>2 + 0i\<close>, \<open>1 + 0i\<close>.
\<close>

theorem utility_ceig_diagonal_real_parts_witness:
  "\<exists>VL' VR'.
     utility_ceig \<lparr>ACCELERATE = True, APPLE = True, INTEL_MKL_VERSION = False\<rparr>
       (\<lambda>jobvl jobvr n a lda ldvl ldvr.
          \<lparr>gv_w = [(0x3F800000, 0x40A00000), (0x40000000, 0xC0400000)],
           gv_vl = [(0x3F800000, 0), (0, 0), (0, 0), (0x3F800000, 0)],
           gv_vr = [(0x3F800000, 0), (0, 0), (0, 0), (0x3F800000, 0)],
           gv_info = 0\<rparr>)
       (\<lambda>re im. (re, im)) isort_by
       \<lparr>u_float = 0x7FC00000, u_double = 0, u_int = 9, u_info = 1\<rparr>
       \<lparr>un_w = (\<lambda>i. (0x7FC00000, 0x7FC00000)), un_vl = (\<lambda>i. (0x7FC00000, 0x7FC00000)),
        un_vr = (\<lambda>i. (0x7FC00000, 0x7FC00000))\<rparr>
       (Ptr [(0x3F800000, 0x40A00000), (0, 0), (0, 0), (0x40000000, 0xC0400000)]) 2 1 NULL
       (Ptr [(0x7FC00000, 0x7FC00000), (0x7FC00000, 0x7FC00000), (0x7FC00000, 0x7FC00000),
             (0x7FC00000, 0x7FC00000)])
       (Ptr [(0x7FC00000, 0x7FC00000), (0x7FC00000, 0x7FC00000), (0x7FC00000, 0x7FC00000),
             (0x7FC00000, 0x7FC00000)])
     = Some (VL', VR', Ptr [(0x40000000, 0), (0, 0), (0, 0), (0x3F800000, 0)])"
proof -
  let ?cfg = "\<lparr>ACCELERATE = True, APPLE = True, INTEL_MKL_VERSION = False\<rparr>"
  let ?r = "\<lparr>gv_w = [(0x3F800000, 0x40A00000), (0x40000000, 0xC0400000 :: float)],
             gv_vl = [(0x3F800000, 0), (0, 0), (0, 0), (0x3F800000, 0 :: float)],
             gv_vr = [(0x3F800000, 0), (0, 0), (0, 0), (0x3F800000, 0 :: float)],
             gv_info = 0\<rparr>"
  let ?cgeev = "\<lambda>(jobvl::string) (jobvr::string) (n::nat) (a::float_complex list) (lda::nat)
                  (ldvl::nat) (ldvr::nat). ?r"
  let ?cmplxf = "\<lambda>(re::float) (im::float). (re, im)"
  let ?u = "\<lparr>u_float = 0x7FC00000, u_double = 0, u_int = 9, u_info = 1\<rparr>"
  let ?g = "\<lparr>un_w = (\<lambda>i::nat. (0x7FC00000, 0x7FC00000 :: float)),
             un_vl = (\<lambda>i::nat. (0x7FC00000, 0x7FC00000 :: float)),
             un_vr = (\<lambda>i::nat. (0x7FC00000, 0x7FC00000 :: float))\<rparr>"
  let ?A = "[(0x3F800000, 0x40A00000), (0, 0), (0, 0), (0x40000000, 0xC0400000)] :: float_complex list"
  let ?J = "[(0x7FC00000, 0x7FC00000), (0x7FC00000, 0x7FC00000), (0x7FC00000, 0x7FC00000),
             (0x7FC00000, 0x7FC00000)] :: float_complex list"
  have r: "?r = cgeev_call ?cfg ?cgeev 2 (col_major 2 2 ?A) (map (un_w ?g) [0..<2])
                  (map (un_vl ?g) [0..<2 * 2]) (map (un_vr ?g) [0..<2 * 2]) (u_info ?u)"
    by (simp add: cgeev_call_def)
  have p: "length ?A = 2 * 2" "(2::nat) * 2 \<le> INT_MAX" "length (gv_w ?r) = 2"
    "length (gv_vl ?r) = 2 * 2" "length (gv_vr ?r) = 2 * 2"
    "(NULL :: float_complex ptr) = NULL \<or> (\<exists>b. (NULL :: float_complex ptr) = Ptr b \<and> length b = 2 * 2)"
    "Ptr ?J = NULL \<or> (\<exists>b. Ptr ?J = Ptr b \<and> length b = 2 * 2)"
    "length ?J = 2 * 2" "\<not> gv_info ?r > 0" "\<forall>x. snd (?cmplxf x 0) = 0"
    by (simp_all add: INT_MAX_def)
  have nn: "\<forall>z\<in>set (gv_w ?r). \<not> float_is_nan (fst z)"
    by (simp add: float_is_nan_def)
  have nle: "\<not> float_le 0x40000000 0x3F800000"
    by (simp add: float_le_def float_is_nan_def float_key_def)
  note th = utility_ceig_diagonal_real_parts [where cmplxf = ?cmplxf and sortDecFLAG = 1 and u = ?u
      and g = ?g and cfg = ?cfg and cgeev = ?cgeev,
      OF p(1) p(2) r p(3) p(4) p(5) isort_by_contract p(6) p(7) p(8) p(9) p(10)]
  from th obtain VL' VR' d' vals where
    run: "utility_ceig ?cfg ?cgeev ?cmplxf isort_by ?u ?g (Ptr ?A) 2 1 NULL (Ptr ?J) (Ptr ?J)
            = Some (VL', VR', Ptr d')"
    and l: "length d' = 2 * 2" "length vals = 2"
    and m: "mset vals = mset (map fst (gv_w ?r))"
    and ord': "(\<forall>z\<in>set (gv_w ?r). \<not> float_is_nan (fst z)) \<longrightarrow>
           (\<forall>i<2. \<forall>j<2. i \<le> j \<longrightarrow>
              (if (1::int) \<noteq> 0 then float_le (vals ! j) (vals ! i)
               else float_le (vals ! i) (vals ! j)))"
    and dg: "\<forall>i<2. d' ! (i * 2 + i) = ?cmplxf (vals ! i) 0"
    and od: "\<forall>i<2. \<forall>j<2. i \<noteq> j \<longrightarrow> d' ! (i * 2 + j) = (0, 0)"
    by (elim exE conjE) (rule that; assumption)
  from ord' nn have ord: "\<forall>i<2. \<forall>j<2. i \<le> j \<longrightarrow>
              (if (1::int) \<noteq> 0 then float_le (vals ! j) (vals ! i)
               else float_le (vals ! i) (vals ! j))"
    by (rule mp)
  from l(2) obtain a b where v: "vals = [a, b]"
    by (cases vals; cases "tl vals") auto
  have "set vals = set (map fst (gv_w ?r))" using m by (rule mset_eq_setD)
  then have "{a, b} = {0x3F800000, 0x40000000}" using v by simp
  then have "a = 0x3F800000 \<and> b = 0x40000000 \<or> a = 0x40000000 \<and> b = 0x3F800000"
    by (simp add: doubleton_eq_iff)
  moreover have "float_le b a" using ord [rule_format, of 0 1] v by simp
  ultimately have ab: "a = 0x40000000" "b = 0x3F800000" using nle by auto
  have e: "d' ! 0 = (0x40000000, 0)" "d' ! 1 = (0, 0)" "d' ! 2 = (0, 0)" "d' ! 3 = (0x3F800000, 0)"
    using dg [rule_format, of 0] dg [rule_format, of 1] od [rule_format, of 0 1]
      od [rule_format, of 1 0] v ab
    by simp_all
  have "d' = [(0x40000000, 0), (0, 0), (0, 0), (0x3F800000, 0)]"
  proof (rule nth_equalityI)
    show "length d' = length [(0x40000000, 0), (0, 0), (0, 0), (0x3F800000, 0 :: float)]"
      using l(1) by simp
    fix k assume "k < length d'"
    then have "k = 0 \<or> k = 1 \<or> k = 2 \<or> k = 3" using l(1) by auto
    then show "d' ! k = [(0x40000000, 0), (0, 0), (0, 0), (0x3F800000, 0)] ! k"
      using e by auto
  qed
  with run show ?thesis by blast
qed

text \<open>
  C10. \<open>utility_ceig\<close> with each of \<open>VL\<close>, \<open>VR\<close>, \<open>D\<close> either \<open>NULL\<close> or a buffer of \<open>dim \<times> dim\<close>
  elements, in any combination, whatever the eigenvalue buffer holds and whatever status is
  found in \<open>info\<close>, for a \<open>dim\<close> whose square is an \<^verbatim>\<open>int\<close>: the call returns without a fault,
  a \<open>NULL\<close> pointer is still \<open>NULL\<close> afterwards and a buffer keeps its size; when \<open>info\<close>
  reports a failure, every buffer that was passed is zero-filled.
\<close>

theorem utility_ceig_null_outputs:
  fixes VL VR D :: "float_complex ptr"
  assumes "length Abuf = dim * dim"
    and "dim * dim \<le> INT_MAX"
    and "r = cgeev_call cfg cgeev dim (col_major dim dim Abuf) (map (un_w g) [0..<dim])
               (map (un_vl g) [0..<dim * dim]) (map (un_vr g) [0..<dim * dim]) (u_info u)"
    and "length (gv_w r) = dim" and "length (gv_vl r) = dim * dim" and "length (gv_vr r) = dim * dim"
    and "qsort_contract qs"
    and "VL = NULL \<or> (\<exists>b. VL = Ptr b \<and> length b = dim * dim)"
    and "VR = NULL \<or> (\<exists>b. VR = Ptr b \<and> length b = dim * dim)"
    and "D = NULL \<or> (\<exists>b. D = Ptr b \<and> length b = dim * dim)"
  shows "\<exists>VL' VR' D'.
      utility_ceig cfg cgeev cmplxf qs u g (Ptr Abuf) dim sortDecFLAG VL VR D = Some (VL', VR', D')
      \<and> same_shape VL VL' \<and> same_shape VR VR' \<and> same_shape D D'
      \<and> (gv_info r > 0 \<longrightarrow>
            VL' = overwritten VL (replicate (dim * dim) (0, 0))
            \<and> VR' = overwritten VR (replicate (dim * dim) (0, 0))
            \<and> D' = overwritten D (replicate (dim * dim) (0, 0)))"
proof -
  obtain VL' VR' D' where
    "utility_ceig cfg cgeev cmplxf qs u g (Ptr Abuf) dim sortDecFLAG VL VR D = Some (VL', VR', D')"
    "same_shape VL VL'" "same_shape VR VR'" "same_shape D D'"
    "gv_info r > 0 \<longrightarrow>
            VL' = overwritten VL (replicate (dim * dim) (0, 0))
            \<and> VR' = overwritten VR (replicate (dim * dim) (0, 0))
            \<and> D' = overwritten D (replicate (dim * dim) (0, 0))"
    using utility_ceig_run [where cmplxf = cmplxf and sortDecFLAG = sortDecFLAG, OF assms]
    by (elim exE conjE) (rule that; assumption)
  then show ?thesis by blast
qed

text \<open>
  All three outputs \<open>NULL\<close> on a run that the backend reports as successful, with a NaN among
  the eigenvalues; and \<open>VL\<close> and \<open>D\<close> \<open>NULL\<close> in a build that never calls the backend, where the
  eigenvalue buffer holds NaNs and \<open>info\<close> is found positive.
\<close>

theorem utility_ceig_null_outputs_witness:
  "utility_ceig \<lparr>ACCELERATE = True, APPLE = True, INTEL_MKL_VERSION = False\<rparr>
       (\<lambda>jobvl jobvr n a lda ldvl ldvr.
          \<lparr>gv_w = [(0x7FC00000, 0x40400000), (0x3F800000, 0)],
           gv_vl = [(0x3F800000, 0), (0, 0), (0, 0), (0x3F800000, 0)],
           gv_vr = [(0x3F800000, 0), (0, 0), (0, 0), (0x3F800000, 0)],
           gv_info = 0\<rparr>)
       (\<lambda>re im. (re, im)) isort_by
       \<lparr>u_float = 0x7FC00000, u_double = 0, u_int = 9, u_info = 1\<rparr>
       \<lparr>un_w = (\<lambda>i. (0x7FC00000, 0x7FC00000)), un_vl = (\<lambda>i. (0x7FC00000, 0x7FC00000)),
        un_vr = (\<lambda>i. (0x7FC00000, 0x7FC00000))\<rparr>
       (Ptr [(0x3F800000, 0), (0, 0), (0, 0), (0x3F800000, 0)]) 2 1 NULL NULL NULL
     = Some (NULL, NULL, NULL)
   \<and> utility_ceig \<lparr>ACCELERATE = False, APPLE = False, INTEL_MKL_VERSION = False\<rparr>
       (\<lambda>jobvl jobvr n a lda ldvl ldvr.
          \<lparr>gv_w = [], gv_vl = [], gv_vr = [], gv_info = 0\<rparr>)
       (\<lambda>re im. (re, im)) isort_by
       \<lparr>u_float = 0x7FC00000, u_double = 0, u_int = 9, u_info = 1\<rparr>
       \<lparr>un_w = (\<lambda>i. (0x7FC00000, 0x7FC00000)), un_vl = (\<lambda>i. (0x7FC00000, 0x7FC00000)),
        un_vr = (\<lambda>i. (0x7FC00000, 0x7FC00000))\<rparr>
       (Ptr [(0x3F800000, 0), (0, 0), (0, 0), (0x3F800000, 0)]) 2 0 NULL
       (Ptr [(0x7FC00000, 0x7FC00000), (0x7FC00000, 0x7FC00000), (0x7FC00000, 0x7FC00000),
             (0x7FC00000, 0x7FC00000)])
       NULL
     = Some (NULL, Ptr [(0, 0), (0, 0), (0, 0), (0, 0)], NULL)"
proof -
  let ?cfg = "\<lparr>ACCELERATE = True, APPLE = True, INTEL_MKL_VERSION = False\<rparr>"
  let ?cfg' = "\<lparr>ACCELERATE = False, APPLE = False, INTEL_MKL_VERSION = False\<rparr>"
  let ?r = "\<lparr>gv_w = [(0x7FC00000, 0x40400000), (0x3F800000, 0 :: float)],
             gv_vl = [(0x3F800000, 0), (0, 0), (0, 0), (0x3F800000, 0 :: float)],
             gv_vr = [(0x3F800000, 0), (0, 0), (0, 0), (0x3F800000, 0 :: float)],
             gv_info = 0\<rparr>"
  let ?cgeev = "\<lambda>(jobvl::string) (jobvr::string) (n::nat) (a::float_complex list) (lda::nat)
                  (ldvl::nat) (ldvr::nat). ?r"
  let ?cgeev' = "\<lambda>(jobvl::string) (jobvr::string) (n::nat) (a::float_complex list) (lda::nat)
                  (ldvl::nat) (ldvr::nat).
                  \<lparr>gv_w = [] :: float_complex list, gv_vl = [] :: float_complex list,
                   gv_vr = [] :: float_complex list, gv_info = 0\<rparr>"
  let ?cmplxf = "\<lambda>(re::float) (im::float). (re, im)"
  let ?u = "\<lparr>u_float = 0x7FC00000, u_double = 0, u_int = 9, u_info = 1\<rparr>"
  let ?g = "\<lparr>un_w = (\<lambda>i::nat. (0x7FC00000, 0x7FC00000 :: float)),
             un_vl = (\<lambda>i::nat. (0x7FC00000, 0x7FC00000 :: float)),
             un_vr = (\<lambda>i::nat. (0x7FC00000, 0x7FC00000 :: float))\<rparr>"
  let ?A = "[(0x3F800000, 0), (0, 0), (0, 0), (0x3F800000, 0)] :: float_complex list"
  let ?J = "[(0x7FC00000, 0x7FC00000), (0x7FC00000, 0x7FC00000), (0x7FC00000, 0x7FC00000),
             (0x7FC00000, 0x7FC00000)] :: float_complex list"
  let ?r' = "cgeev_call ?cfg' ?cgeev' 2 (col_major 2 2 ?A) (map (un_w ?g) [0..<2])
                  (map (un_vl ?g) [0..<2 * 2]) (map (un_vr ?g) [0..<2 * 2]) (u_info ?u)"
  have r: "?r = cgeev_call ?cfg ?cgeev 2 (col_major 2 2 ?A) (map (un_w ?g) [0..<2])
                  (map (un_vl ?g) [0..<2 * 2]) (map (un_vr ?g) [0..<2 * 2]) (u_info ?u)"
    by (simp add: cgeev_call_def)
  have p: "length ?A = 2 * 2" "(2::nat) * 2 \<le> INT_MAX" "length (gv_w ?r) = 2"
    "length (gv_vl ?r) = 2 * 2" "length (gv_vr ?r) = 2 * 2"
    "(NULL :: float_complex ptr) = NULL \<or> (\<exists>b. (NULL :: float_complex ptr) = Ptr b \<and> length b = 2 * 2)"
    "Ptr ?J = NULL \<or> (\<exists>b. Ptr ?J = Ptr b \<and> length b = 2 * 2)"
    by (simp_all add: INT_MAX_def)
  have p': "length (gv_w ?r') = 2" "length (gv_vl ?r') = 2 * 2" "length (gv_vr ?r') = 2 * 2"
    "gv_info ?r' > 0"
    by (simp_all add: cgeev_call_def)
  note th = utility_ceig_null_outputs [where cmplxf = ?cmplxf and sortDecFLAG = 1 and u = ?u
      and g = ?g and cfg = ?cfg and cgeev = ?cgeev,
      OF p(1) p(2) r p(3) p(4) p(5) isort_by_contract p(6) p(6) p(6)]
  note th' = utility_ceig_null_outputs [where cmplxf = ?cmplxf and sortDecFLAG = 0 and u = ?u
      and g = ?g and cfg = ?cfg' and cgeev = ?cgeev',
      OF p(1) p(2) refl p'(1) p'(2) p'(3) isort_by_contract p(6) p(7) p(6)]
  from th obtain VL' VR' D' where
    "utility_ceig ?cfg ?cgeev ?cmplxf isort_by ?u ?g (Ptr ?A) 2 1 NULL NULL NULL = Some (VL', VR', D')"
    "same_shape NULL VL'" "same_shape NULL VR'" "same_shape NULL D'"
    by (elim exE conjE) (rule that; assumption)
  then have one: "utility_ceig ?cfg ?cgeev ?cmplxf isort_by ?u ?g (Ptr ?A) 2 1 NULL NULL NULL
      = Some (NULL, NULL, NULL)"
    by simp
  from th' obtain VL' VR' D' where
    run: "utility_ceig ?cfg' ?cgeev' ?cmplxf isort_by ?u ?g (Ptr ?A) 2 0 NULL (Ptr ?J) NULL
      = Some (VL', VR', D')"
    and z: "gv_info ?r' > 0 \<longrightarrow>
            VL' = overwritten NULL (replicate (2 * 2) (0, 0))
            \<and> VR' = overwritten (Ptr ?J) (replicate (2 * 2) (0, 0))
            \<and> D' = overwritten NULL (replicate (2 * 2) (0, 0))"
    by (elim exE conjE) (rule that; assumption)
  from z p'(4) have "VL' = overwritten NULL (replicate (2 * 2) (0, 0))
            \<and> VR' = overwritten (Ptr ?J) (replicate (2 * 2) (0, 0))
            \<and> D' = overwritten NULL (replicate (2 * 2) (0, 0))"
    by (rule mp)
  then have "VL' = NULL" "VR' = Ptr [(0, 0), (0, 0), (0, 0), (0, 0)]" "D' = NULL"
    by (simp_all add: overwritten_Ptr eval_nat_numeral)
  with run have two: "utility_ceig ?cfg' ?cgeev' ?cmplxf isort_by ?u ?g (Ptr ?A) 2 0 NULL (Ptr ?J) NULL
      = Some (NULL, Ptr [(0, 0), (0, 0), (0, 0), (0, 0)], NULL)"
    by simp
  from one two show ?thesis by (rule conjI)
qed

section \<open>Singular value decomposition\<close>

subsection \<open>Loops on the heap\<close>

lemma for_loop_sim:
  assumes "R s t"
    and "\<And>i s t. lo \<le> i \<Longrightarrow> i < hi \<Longrightarrow> R s t \<Longrightarrow> rel_option R (f i s) (g i t)"
  shows "rel_option R (for_loop lo hi f s) (for_loop lo hi g t)"
  using assms
proof (induction "hi - lo" arbitrary: lo s t)
  case 0
  then show ?case by (simp add: for_loop.simps)
next
  case (Suc k)
  then have lt: "lo < hi" by simp
  have step: "rel_option R (f lo s) (g lo t)" using Suc.prems lt by simp
  show ?case
  proof (cases "f lo s")
    case None
    then have "g lo t = None" using step by (cases "g lo t") simp_all
    then show ?thesis using None lt by (simp add: for_loop.simps [of lo])
  next
    case (Some s1)
    then obtain t1 where t1: "g lo t = Some t1" "R s1 t1"
      using step by (cases "g lo t") simp_all
    have "rel_option R (for_loop (Suc lo) hi f s1) (for_loop (Suc lo) hi g t1)"
    proof (rule Suc.hyps(1))
      show "k = hi - Suc lo" using Suc.hyps(2) by simp
      show "R s1 t1" by (rule t1)
      show "\<And>i s t. Suc lo \<le> i \<Longrightarrow> i < hi \<Longrightarrow> R s t \<Longrightarrow> rel_option R (f i s) (g i t)"
        using Suc.prems(2) by simp
    qed
    then show ?thesis using Some t1(1) lt by (simp add: for_loop.simps [of lo])
  qed
qed

text \<open>A heap whose block \<open>a\<close> holds \<open>d\<close>, next to the buffer \<open>d\<close> itself.\<close>

lemma hstore_block:
  "hstore a i v (h\<lparr>blocks := (blocks h)(a \<mapsto> d)\<rparr>)
     = (if i < length d then Some (h\<lparr>blocks := (blocks h)(a \<mapsto> d[i := v])\<rparr>) else None)"
  by (simp add: hstore_def)

lemma hload_other:
  "c \<noteq> a \<Longrightarrow> hload (h\<lparr>blocks := (blocks h)(a \<mapsto> d)\<rparr>) c i = hload h c i"
  by (simp add: hload_def)

lemma hload_block:
  "blocks h c = Some b \<Longrightarrow> hload h c i = load (Ptr b) i"
  by (simp add: hload_def load_Ptr)

lemma heap_nested_loops:
  assumes body: "\<And>i j d. i < n1 \<Longrightarrow> j < n2 \<Longrightarrow>
      hbody i j (h\<lparr>blocks := (blocks h)(a \<mapsto> d)\<rparr>)
        = map_option (\<lambda>p. h\<lparr>blocks := (blocks h)(a \<mapsto> (case p of Ptr e \<Rightarrow> e | NULL \<Rightarrow> []))\<rparr>)
            (pbody i j (Ptr d))"
    and ptr: "\<And>i j d. i < n1 \<Longrightarrow> j < n2 \<Longrightarrow> pbody i j (Ptr d) \<noteq> Some NULL"
    and res: "for_loop 0 n1 (\<lambda>i p. for_loop 0 n2 (pbody i) p) (Ptr d0) = Some (Ptr d')"
  shows "for_loop 0 n1 (\<lambda>i h. for_loop 0 n2 (hbody i) h) (h\<lparr>blocks := (blocks h)(a \<mapsto> d0)\<rparr>)
           = Some (h\<lparr>blocks := (blocks h)(a \<mapsto> d')\<rparr>)"
proof -
  define R where "R = (\<lambda>s p. \<exists>d. p = Ptr d \<and> s = h\<lparr>blocks := (blocks h)(a \<mapsto> d)\<rparr>)"
  have inner: "rel_option R (hbody i j s) (pbody i j p)"
    if i: "i < n1" and j: "j < n2" and r: "R s p" for i j s p
  proof -
    from r obtain d where d: "p = Ptr d" "s = h\<lparr>blocks := (blocks h)(a \<mapsto> d)\<rparr>"
      unfolding R_def by blast
    show ?thesis
    proof (cases "pbody i j (Ptr d)")
      case None
      then show ?thesis using body [OF i j, of d] d by simp
    next
      case (Some q)
      then obtain e where "q = Ptr e" using ptr [OF i j, of d] by (cases q) simp_all
      then show ?thesis using body [OF i j, of d] d Some by (simp add: R_def)
    qed
  qed
  have "rel_option R
          (for_loop 0 n1 (\<lambda>i h. for_loop 0 n2 (hbody i) h) (h\<lparr>blocks := (blocks h)(a \<mapsto> d0)\<rparr>))
          (for_loop 0 n1 (\<lambda>i p. for_loop 0 n2 (pbody i) p) (Ptr d0))"
  proof (rule for_loop_sim)
    show "R (h\<lparr>blocks := (blocks h)(a \<mapsto> d0)\<rparr>) (Ptr d0)" by (simp add: R_def)
    fix i s t assume "i < n1" "R s t"
    then show "rel_option R (for_loop 0 n2 (hbody i) s) (for_loop 0 n2 (pbody i) t)"
      by (intro for_loop_sim) (simp_all add: inner)
  qed
  then show ?thesis unfolding res by (cases "for_loop 0 n1 (\<lambda>i h. for_loop 0 n2 (hbody i) h)
      (h\<lparr>blocks := (blocks h)(a \<mapsto> d0)\<rparr>)") (auto simp: R_def)
qed

lemma heap_block_triv: "blocks h a = Some d \<Longrightarrow> h\<lparr>blocks := (blocks h)(a \<mapsto> d)\<rparr> = h"
  by (simp add: map_upd_triv)

lemma ssvd_input_loops:
  assumes "blocks h a = Some a0" and "length a0 = dim1 * dim2" and "length Abuf = dim1 * dim2"
  shows "for_loop 0 dim1
            (\<lambda>i h. for_loop 0 dim2
               (\<lambda>j h. do { x \<leftarrow> load (Ptr Abuf) (i * dim2 + j); hstore a (j * dim1 + i) x h }) h)
            h
         = Some (h\<lparr>blocks := (blocks h)(a \<mapsto> col_major dim1 dim2 Abuf)\<rparr>)"
proof -
  have "for_loop 0 dim1 (\<lambda>i h. for_loop 0 dim2
               ((\<lambda>i j h. do { x \<leftarrow> load (Ptr Abuf) (i * dim2 + j); hstore a (j * dim1 + i) x h }) i) h)
            (h\<lparr>blocks := (blocks h)(a \<mapsto> a0)\<rparr>)
         = Some (h\<lparr>blocks := (blocks h)(a \<mapsto> col_major dim1 dim2 Abuf)\<rparr>)"
  proof (rule heap_nested_loops [where pbody =
      "\<lambda>i j p. do { x \<leftarrow> load (Ptr Abuf) (i * dim2 + j); store p (j * dim1 + i) x }"])
    fix i j d
    show "(do { x \<leftarrow> load (Ptr Abuf) (i * dim2 + j);
                hstore a (j * dim1 + i) x (h\<lparr>blocks := (blocks h)(a \<mapsto> d)\<rparr>) })
        = map_option (\<lambda>p. h\<lparr>blocks := (blocks h)(a \<mapsto> (case p of Ptr e \<Rightarrow> e | NULL \<Rightarrow> []))\<rparr>)
            (do { x \<leftarrow> load (Ptr Abuf) (i * dim2 + j); store (Ptr d) (j * dim1 + i) x })"
      by (cases "load (Ptr Abuf) (i * dim2 + j)") (simp_all add: hstore_block store_Ptr)
    show "(do { x \<leftarrow> load (Ptr Abuf) (i * dim2 + j); store (Ptr d) (j * dim1 + i) x }) \<noteq> Some NULL"
      by (cases "load (Ptr Abuf) (i * dim2 + j)") (simp_all add: store_Ptr)
  next
    show "for_loop 0 dim1 (\<lambda>i p. for_loop 0 dim2
            (\<lambda>j p. do { x \<leftarrow> load (Ptr Abuf) (i * dim2 + j); store p (j * dim1 + i) x }) p) (Ptr a0)
          = Some (Ptr (col_major dim1 dim2 Abuf))"
      using assms(2,3) by (intro to_col_major_loops)
  qed
  then show ?thesis by (simp add: heap_block_triv [OF assms(1)])
qed

lemma ssvd_U_loops:
  assumes "blocks h u = Some ublk" and "blocks h U = Some U0" and "u \<noteq> U"
    and "length ublk = dim1 * dim1" and "length U0 = dim1 * dim1"
  shows "for_loop 0 dim1
            (\<lambda>i h. for_loop 0 dim1
               (\<lambda>j h. do { x \<leftarrow> hload h u (j * dim1 + i); hstore U (i * dim1 + j) x h }) h)
            h
         = Some (h\<lparr>blocks := (blocks h)(U \<mapsto> col_major dim1 dim1 ublk)\<rparr>)"
proof -
  have "for_loop 0 dim1 (\<lambda>i h. for_loop 0 dim1
               ((\<lambda>i j h. do { x \<leftarrow> hload h u (j * dim1 + i); hstore U (i * dim1 + j) x h }) i) h)
            (h\<lparr>blocks := (blocks h)(U \<mapsto> U0)\<rparr>)
         = Some (h\<lparr>blocks := (blocks h)(U \<mapsto> col_major dim1 dim1 ublk)\<rparr>)"
  proof (rule heap_nested_loops [where pbody =
      "\<lambda>i j p. do { x \<leftarrow> load (Ptr ublk) (j * dim1 + i); store p (i * dim1 + j) x }"])
    fix i j d
    have ld: "hload (h\<lparr>blocks := (blocks h)(U \<mapsto> d)\<rparr>) u (j * dim1 + i)
                = load (Ptr ublk) (j * dim1 + i)"
      using assms(1,3) by (simp add: hload_other hload_block)
    show "(do { x \<leftarrow> hload (h\<lparr>blocks := (blocks h)(U \<mapsto> d)\<rparr>) u (j * dim1 + i);
                hstore U (i * dim1 + j) x (h\<lparr>blocks := (blocks h)(U \<mapsto> d)\<rparr>) })
        = map_option (\<lambda>p. h\<lparr>blocks := (blocks h)(U \<mapsto> (case p of Ptr e \<Rightarrow> e | NULL \<Rightarrow> []))\<rparr>)
            (do { x \<leftarrow> load (Ptr ublk) (j * dim1 + i); store (Ptr d) (i * dim1 + j) x })"
      unfolding ld
      by (cases "load (Ptr ublk) (j * dim1 + i)") (simp_all add: hstore_block store_Ptr)
    show "(do { x \<leftarrow> load (Ptr ublk) (j * dim1 + i); store (Ptr d) (i * dim1 + j) x }) \<noteq> Some NULL"
      by (cases "load (Ptr ublk) (j * dim1 + i)") (simp_all add: store_Ptr)
  next
    show "for_loop 0 dim1 (\<lambda>i p. for_loop 0 dim1
            (\<lambda>j p. do { x \<leftarrow> load (Ptr ublk) (j * dim1 + i); store p (i * dim1 + j) x }) p) (Ptr U0)
          = Some (Ptr (col_major dim1 dim1 ublk))"
      using assms(4,5) by (intro transpose_square_loops)
  qed
  then show ?thesis by (simp add: heap_block_triv [OF assms(2)])
qed

text \<open>The loops for \<open>V\<close> copy \<open>vt\<close> as it is.\<close>

lemma copy_square_loops:
  assumes "length vt = n * n" and "length V0 = n * n"
  shows "for_loop 0 n (\<lambda>i p. for_loop 0 n
            (\<lambda>j p. do { x \<leftarrow> load (Ptr vt) (i * n + j); store p (i * n + j) x }) p) (Ptr V0)
         = Some (Ptr vt)"
proof -
  have "\<exists>d'. for_loop 0 n (\<lambda>i d. for_loop 0 n
           ((\<lambda>i j p. do { x \<leftarrow> load (Ptr vt) (i * n + j); store p (i * n + j) x }) i) d) (Ptr V0)
          = Some (Ptr d')
        \<and> length d' = length V0
        \<and> (\<forall>i<n. \<forall>j<n. d' ! (i * n + j) = vt ! (i * n + j))
        \<and> (\<forall>k<length V0. (\<forall>i<n. \<forall>j<n. i * n + j \<noteq> k) \<longrightarrow> d' ! k = V0 ! k)"
  proof (rule nested_store_loops)
    fix i j d assume "i < n" "j < n" "length (d::'a list) = length V0"
    then show "(do { x \<leftarrow> load (Ptr vt) (i * n + j); store (Ptr d) (i * n + j) x })
                 = store (Ptr d) (i * n + j) (vt ! (i * n + j))"
      using assms idx_range [of i n j n] by (simp add: load_Ptr)
  next
    fix i j assume "i < n" "j < n"
    then show "i * n + j < length V0" using assms idx_range [of i n j n] by simp
  next
    fix i j i' j' assume "i < n" "j < n" "i' < n" "j' < n" "i * n + j = i' * n + j'"
    then show "i = i' \<and> j = j'" using idx_inj [of j n j' i i'] by simp
  qed
  then obtain d' where d': "for_loop 0 n (\<lambda>i p. for_loop 0 n
            (\<lambda>j p. do { x \<leftarrow> load (Ptr vt) (i * n + j); store p (i * n + j) x }) p) (Ptr V0)
          = Some (Ptr d')" "length d' = n * n" "\<forall>i<n. \<forall>j<n. d' ! (i * n + j) = vt ! (i * n + j)"
    using assms by auto
  have "d' = vt"
  proof (rule nth_equalityI)
    show "length d' = length vt" by (simp add: d'(2) assms(1))
    fix k assume "k < length d'"
    then have k: "k < n * n" by (simp add: d'(2))
    then have "k div n < n" "k mod n < n" using idx_decompose [of k n n] by simp_all
    then have "d' ! ((k div n) * n + k mod n) = vt ! ((k div n) * n + k mod n)"
      using d'(3) by blast
    then show "d' ! k = vt ! k" by simp
  qed
  then show ?thesis using d'(1) by simp
qed

lemma ssvd_V_loops:
  assumes "blocks h vt = Some vtblk" and "blocks h V = Some V0" and "vt \<noteq> V"
    and "length vtblk = dim2 * dim2" and "length V0 = dim2 * dim2"
  shows "for_loop 0 dim2
            (\<lambda>i h. for_loop 0 dim2
               (\<lambda>j h. do { x \<leftarrow> hload h vt (i * dim2 + j); hstore V (i * dim2 + j) x h }) h)
            h
         = Some (h\<lparr>blocks := (blocks h)(V \<mapsto> vtblk)\<rparr>)"
proof -
  have "for_loop 0 dim2 (\<lambda>i h. for_loop 0 dim2
               ((\<lambda>i j h. do { x \<leftarrow> hload h vt (i * dim2 + j); hstore V (i * dim2 + j) x h }) i) h)
            (h\<lparr>blocks := (blocks h)(V \<mapsto> V0)\<rparr>)
         = Some (h\<lparr>blocks := (blocks h)(V \<mapsto> vtblk)\<rparr>)"
  proof (rule heap_nested_loops [where pbody =
      "\<lambda>i j p. do { x \<leftarrow> load (Ptr vtblk) (i * dim2 + j); store p (i * dim2 + j) x }"])
    fix i j d
    have ld: "hload (h\<lparr>blocks := (blocks h)(V \<mapsto> d)\<rparr>) vt (i * dim2 + j)
                = load (Ptr vtblk) (i * dim2 + j)"
      using assms(1,3) by (simp add: hload_other hload_block)
    show "(do { x \<leftarrow> hload (h\<lparr>blocks := (blocks h)(V \<mapsto> d)\<rparr>) vt (i * dim2 + j);
                hstore V (i * dim2 + j) x (h\<lparr>blocks := (blocks h)(V \<mapsto> d)\<rparr>) })
        = map_option (\<lambda>p. h\<lparr>blocks := (blocks h)(V \<mapsto> (case p of Ptr e \<Rightarrow> e | NULL \<Rightarrow> []))\<rparr>)
            (do { x \<leftarrow> load (Ptr vtblk) (i * dim2 + j); store (Ptr d) (i * dim2 + j) x })"
      unfolding ld
      by (cases "load (Ptr vtblk) (i * dim2 + j)") (simp_all add: hstore_block store_Ptr)
    show "(do { x \<leftarrow> load (Ptr vtblk) (i * dim2 + j); store (Ptr d) (i * dim2 + j) x }) \<noteq> Some NULL"
      by (cases "load (Ptr vtblk) (i * dim2 + j)") (simp_all add: store_Ptr)
  next
    show "for_loop 0 dim2 (\<lambda>i p. for_loop 0 dim2
            (\<lambda>j p. do { x \<leftarrow> load (Ptr vtblk) (i * dim2 + j); store p (i * dim2 + j) x }) p) (Ptr V0)
          = Some (Ptr vtblk)"
      using assms(4,5) by (intro copy_square_loops)
  qed
  then show ?thesis by (simp add: heap_block_triv [OF assms(2)])
qed

text \<open>The loop that puts the singular values on the diagonal of the zeroed \<open>S\<close>.\<close>

lemma ssvd_S_loop:
  assumes "blocks h s = Some sblk" and "blocks h S = Some S0" and "s \<noteq> S"
    and "length sblk = k" and "k = min dim1 dim2" and "length S0 = dim1 * dim2"
  shows "\<exists>d'. for_loop 0 k (\<lambda>i h. do { x \<leftarrow> hload h s i; hstore S (i * dim2 + i) x h }) h
                = Some (h\<lparr>blocks := (blocks h)(S \<mapsto> d')\<rparr>)
           \<and> length d' = dim1 * dim2
           \<and> (\<forall>i<dim1. \<forall>j<dim2. d' ! (i * dim2 + j)
                 = (if i = j then sblk ! i else S0 ! (i * dim2 + j)))"
proof -
  let ?pbody = "\<lambda>i p. do { x \<leftarrow> load (Ptr sblk) i; store p (i * dim2 + i) x }"
  let ?hbody = "\<lambda>i h. do { x \<leftarrow> hload h s i; hstore S (i * dim2 + i) x h }"
  have "\<exists>d'. for_loop 0 k ?pbody (Ptr S0) = Some (Ptr d')
           \<and> length d' = length S0
           \<and> (\<forall>i<k. d' ! (i * dim2 + i) = sblk ! i)
           \<and> (\<forall>m<length S0. (\<forall>i<k. i * dim2 + i \<noteq> m) \<longrightarrow> d' ! m = S0 ! m)"
  proof (rule store_loop)
    fix i d assume "i < k" "length (d::float list) = length S0"
    then show "?pbody i (Ptr d) = store (Ptr d) (i * dim2 + i) (sblk ! i)"
      using assms(4) by (simp add: load_Ptr)
  next
    fix i assume "i < k"
    then show "i * dim2 + i < length S0"
      using idx_range [of i dim1 i dim2] assms(5,6) by simp
  next
    fix i j assume "i < k" "j < k" "i * dim2 + i = j * dim2 + j"
    then show "i = j" using idx_inj [of i dim2 j i j] assms(5) by simp
  qed
  then obtain d' where d': "for_loop 0 k ?pbody (Ptr S0) = Some (Ptr d')"
    "length d' = dim1 * dim2" "\<forall>i<k. d' ! (i * dim2 + i) = sblk ! i"
    "\<forall>m<dim1 * dim2. (\<forall>i<k. i * dim2 + i \<noteq> m) \<longrightarrow> d' ! m = S0 ! m"
    using assms(6) by auto
  define R where "R = (\<lambda>t p. \<exists>d. p = Ptr d \<and> t = h\<lparr>blocks := (blocks h)(S \<mapsto> d)\<rparr>)"
  have "rel_option R (for_loop 0 k ?hbody (h\<lparr>blocks := (blocks h)(S \<mapsto> S0)\<rparr>))
          (for_loop 0 k ?pbody (Ptr S0))"
  proof (rule for_loop_sim)
    show "R (h\<lparr>blocks := (blocks h)(S \<mapsto> S0)\<rparr>) (Ptr S0)" by (simp add: R_def)
    fix i t p assume "R t p"
    then obtain d where d: "p = Ptr d" "t = h\<lparr>blocks := (blocks h)(S \<mapsto> d)\<rparr>"
      unfolding R_def by blast
    have ld: "hload t s i = load (Ptr sblk) i"
      unfolding d using assms(1,3) by (simp add: hload_other hload_block)
    show "rel_option R (?hbody i t) (?pbody i p)"
      unfolding ld
      by (cases "load (Ptr sblk) i") (simp_all add: d hstore_block store_Ptr R_def)
  qed
  then have run: "for_loop 0 k ?hbody h = Some (h\<lparr>blocks := (blocks h)(S \<mapsto> d')\<rparr>)"
    unfolding d'(1) heap_block_triv [OF assms(2)]
    by (cases "for_loop 0 k ?hbody h") (auto simp: R_def)
  have "\<forall>i<dim1. \<forall>j<dim2. d' ! (i * dim2 + j) = (if i = j then sblk ! i else S0 ! (i * dim2 + j))"
  proof (intro allI impI)
    fix i j assume ij: "i < dim1" "j < dim2"
    show "d' ! (i * dim2 + j) = (if i = j then sblk ! i else S0 ! (i * dim2 + j))"
    proof (cases "i = j")
      case True
      then have "i < k" using ij assms(5) by simp
      then show ?thesis using d'(3) True by simp
    next
      case False
      have "\<forall>m<k. m * dim2 + m \<noteq> i * dim2 + j"
      proof (intro allI impI notI)
        fix m assume "m < k" "m * dim2 + m = i * dim2 + j"
        then have "m = i \<and> m = j" using idx_inj [of m dim2 j m i] ij assms(5) by simp
        then show False using False by simp
      qed
      moreover have "i * dim2 + j < dim1 * dim2" using idx_range [OF ij] .
      ultimately show ?thesis using d'(4) False by simp
    qed
  qed
  with run d'(2) show ?thesis by blast
qed

lemma ssvd_input_loops_rw:
  assumes "blocks h a \<noteq> None" and "length (the (blocks h a)) = dim1 * dim2"
    and "length Abuf = dim1 * dim2"
  shows "for_loop 0 dim1
            (\<lambda>i h. for_loop 0 dim2
               (\<lambda>j h. do { x \<leftarrow> load (Ptr Abuf) (i * dim2 + j); hstore a (j * dim1 + i) x h }) h)
            h
         = Some (h\<lparr>blocks := (blocks h)(a \<mapsto> col_major dim1 dim2 Abuf)\<rparr>)"
  using assms ssvd_input_loops [of h a "the (blocks h a)" dim1 dim2 Abuf] by auto

lemma hfree_freeable:
  "freeable h p \<Longrightarrow>
   hfree p h = Some (h\<lparr>blocks := (\<lambda>x. if Some x = p then None else blocks h x)\<rparr>)"
  by (cases p) (auto simp: hfree_def freeable_def fun_upd_def)

lemma hfree_Some:
  "blocks h a \<noteq> None \<Longrightarrow> hfree (Some a) h = Some (h\<lparr>blocks := (blocks h)(a := None)\<rparr>)"
  by (auto simp: hfree_def)

lemma MIN_of_min: "MIN_of a b = min a b"
  by (simp add: MIN_of_def min_def)

lemma hfree3:
  assumes "freeable h U" and "freeable h S" and "freeable h V"
    and "\<forall>a. U = Some a \<longrightarrow> S \<noteq> Some a \<and> V \<noteq> Some a" and "\<forall>a. S = Some a \<longrightarrow> V \<noteq> Some a"
  shows "hfree U h \<bind> (\<lambda>h. hfree S h \<bind> (\<lambda>h. hfree V h \<bind> K))
         = K (h\<lparr>blocks := (\<lambda>x. if Some x = U \<or> Some x = S \<or> Some x = V then None
                              else blocks h x)\<rparr>)"
proof -
  have eq: "h\<lparr>blocks := f\<rparr> = h\<lparr>blocks := g\<rparr>" if "f = g" for f g
    using that by simp
  show ?thesis
    using assms
    by (cases U; cases S; cases V)
       (auto simp: hfree_def freeable_def intro!: arg_cong [where f = K] eq)
qed

text \<open>Pointers the caller got from the allocator are not among the addresses handed out next.\<close>

lemma freeable_not_fresh:
  assumes "heap_ok h" and "freeable h p"
  shows "p \<noteq> Some (brk h)" "p \<noteq> Some (Suc (brk h))" "p \<noteq> Some (Suc (Suc (brk h)))"
    "p \<noteq> Some (Suc (Suc (Suc (brk h))))" "p \<noteq> Some (Suc (Suc (Suc (Suc (brk h)))))"
    "p \<noteq> Some (Suc (Suc (Suc (Suc (Suc (brk h))))))"
    "p \<noteq> Some (Suc (Suc (Suc (Suc (Suc (Suc (brk h)))))))"
    "p \<noteq> Some (Suc (Suc (Suc (Suc (Suc (Suc (Suc (brk h))))))))"
proof -
  have "p \<noteq> Some (brk h + k)" for k
    using assms by (cases p) (force simp: heap_ok_def freeable_def)+
  from this [of 0] this [of 1] this [of 2] this [of 3] this [of 4] this [of 5] this [of 6]
    this [of 7]
  show "p \<noteq> Some (brk h)" "p \<noteq> Some (Suc (brk h))" "p \<noteq> Some (Suc (Suc (brk h)))"
    "p \<noteq> Some (Suc (Suc (Suc (brk h))))" "p \<noteq> Some (Suc (Suc (Suc (Suc (brk h)))))"
    "p \<noteq> Some (Suc (Suc (Suc (Suc (Suc (brk h))))))"
    "p \<noteq> Some (Suc (Suc (Suc (Suc (Suc (Suc (brk h)))))))"
    "p \<noteq> Some (Suc (Suc (Suc (Suc (Suc (Suc (Suc (brk h))))))))"
    by (simp_all add: eval_nat_numeral)
qed

lemma heap_ok_fresh:
  assumes "heap_ok h"
  shows "blocks h (brk h) = None" "blocks h (Suc (brk h)) = None"
    "blocks h (Suc (Suc (brk h))) = None" "blocks h (Suc (Suc (Suc (brk h)))) = None"
    "blocks h (Suc (Suc (Suc (Suc (brk h))))) = None"
    "blocks h (Suc (Suc (Suc (Suc (Suc (brk h)))))) = None"
    "blocks h (Suc (Suc (Suc (Suc (Suc (Suc (brk h))))))) = None"
    "blocks h (Suc (Suc (Suc (Suc (Suc (Suc (Suc (brk h)))))))) = None"
proof -
  have "blocks h (brk h + k) = None" for k
    using assms by (force simp: heap_ok_def)
  from this [of 0] this [of 1] this [of 2] this [of 3] this [of 4] this [of 5] this [of 6]
    this [of 7]
  show "blocks h (brk h) = None" "blocks h (Suc (brk h)) = None"
    "blocks h (Suc (Suc (brk h))) = None" "blocks h (Suc (Suc (Suc (brk h)))) = None"
    "blocks h (Suc (Suc (Suc (Suc (brk h))))) = None"
    "blocks h (Suc (Suc (Suc (Suc (Suc (brk h)))))) = None"
    "blocks h (Suc (Suc (Suc (Suc (Suc (Suc (brk h))))))) = None"
    "blocks h (Suc (Suc (Suc (Suc (Suc (Suc (Suc (brk h)))))))) = None"
    by (simp_all add: eval_nat_numeral)
qed

lemma freeable_after_scratch:
  assumes "freeable h p"
  shows "freeable (h\<lparr>brk := k, blocks := (blocks h)(a1 \<mapsto> v1, a2 \<mapsto> v2, a3 \<mapsto> v3, a4 \<mapsto> v4,
                        a5 \<mapsto> v5)\<rparr>) p"
  using assms by (cases p) (auto simp: freeable_def)

text \<open>Where \<open>dim1 * dim2\<close> is not an \<^verbatim>\<open>int\<close>, the first allocation already overflows.\<close>

lemma utility_ssvd_overflow:
  assumes "INT_MAX < dim1 * dim2"
  shows "utility_ssvd sgesvd lwork un A dim1 dim2 U S V h0 = None"
  unfolding utility_ssvd_def Let_def by (simp add: int_mul_overflow [OF assms])

text \<open>
  C5. \<open>utility_ssvd\<close> when the backend reports \<open>info > 0\<close>, called with \<open>*U\<close>, \<open>*S\<close>, \<open>*V\<close> each
  \<open>NULL\<close> or a distinct allocated block, on dimensions whose products \<open>dim1 * dim1\<close>,
  \<open>dim1 * dim2\<close> and \<open>dim2 * dim2\<close> are \<^verbatim>\<open>int\<close>s: the call returns, the three pointers are \<open>NULL\<close>,
  and the heap holds what it held before without the three blocks: they were freed, every
  scratch block was released, and nothing else was written.
\<close>

theorem utility_ssvd_failure_nulls:
  assumes ok: "heap_ok h0"
    and fr: "freeable h0 U" "freeable h0 S" "freeable h0 V"
    and di: "\<forall>a. U = Some a \<longrightarrow> S \<noteq> Some a \<and> V \<noteq> Some a" "\<forall>a. S = Some a \<longrightarrow> V \<noteq> Some a"
    and A: "length Abuf = dim1 * dim2"
    and rng: "dim1 * dim1 \<le> INT_MAX" "dim1 * dim2 \<le> INT_MAX" "dim2 * dim2 \<le> INT_MAX"
    and r: "r = sgesvd ''A'' ''A'' dim1 dim2 (col_major dim1 dim2 Abuf) dim1 dim1 dim2"
    and lens: "length (sv_a r) = dim1 * dim2" "length (sv_s r) = min dim1 dim2"
      "length (sv_u r) = dim1 * dim1" "length (sv_vt r) = dim2 * dim2"
    and info: "sv_info r > 0"
  shows "\<exists>h'. utility_ssvd sgesvd lwork un (Ptr Abuf) dim1 dim2 U S V h0 = Some (None, None, None, h')
           \<and> blocks h' = (\<lambda>x. if Some x = U \<or> Some x = S \<or> Some x = V then None else blocks h0 x)"
proof -
  note nf = freeable_not_fresh [OF ok fr(1)] freeable_not_fresh [OF ok fr(2)]
    freeable_not_fresh [OF ok fr(3)]
  show ?thesis
    unfolding utility_ssvd_def Let_def hmalloc_def hcalloc_def MIN_of_min
    apply (simp add: int_mul_ok rng ssvd_input_loops_rw A hblock_def r [symmetric] hbackend_wrote_def
        lens min.commute info)
    apply (subst hfree3)
         apply (simp_all add: freeable_after_scratch fr di)
    apply (simp add: hfree_Some nf nf [symmetric])
    apply (rule ext)
    apply (simp add: heap_ok_fresh [OF ok])
    done
qed

theorem utility_ssvd_failure_nulls_witness:
  "\<exists>h'. utility_ssvd
           (\<lambda>jobu jobvt m n a lda ldu ldvt.
              \<lparr>sv_a = [7, 7], sv_s = [3], sv_u = [1], sv_vt = [1, 0, 0, 1], sv_info = 1\<rparr>)
           4 \<lparr>u_float = 0x7FC00000, u_double = 0, u_int = 9, u_info = 1\<rparr>
           (Ptr [1, 2]) 1 2 (Some 0) (Some 1) None
           \<lparr>blocks = [0 \<mapsto> [8], 1 \<mapsto> [9, 9], 2 \<mapsto> [5]], brk = 3\<rparr>
         = Some (None, None, None, h')
       \<and> blocks h' 0 = None \<and> blocks h' 1 = None \<and> blocks h' 2 = Some [5] \<and> blocks h' 3 = None"
proof -
  let ?r = "\<lparr>sv_a = [7, 7 :: float], sv_s = [3 :: float], sv_u = [1 :: float],
             sv_vt = [1, 0, 0, 1 :: float], sv_info = 1\<rparr>"
  let ?sgesvd = "\<lambda>(jobu::string) (jobvt::string) (m::nat) (n::nat) (a::float list) (lda::nat)
                   (ldu::nat) (ldvt::nat). ?r"
  let ?un = "\<lparr>u_float = 0x7FC00000, u_double = 0, u_int = 9, u_info = 1\<rparr>"
  let ?h0 = "\<lparr>blocks = [0 \<mapsto> [8 :: float], 1 \<mapsto> [9, 9], 2 \<mapsto> [5]], brk = 3\<rparr>"
  let ?A = "[1, 2] :: float list"
  have ok: "heap_ok ?h0" by (simp add: heap_ok_def)
  have fr: "freeable ?h0 (Some 0)" "freeable ?h0 (Some 1)" "freeable ?h0 None"
    by (simp_all add: freeable_def)
  have di: "\<forall>a. Some (0::nat) = Some a \<longrightarrow> Some (1::nat) \<noteq> Some a \<and> (None :: nat option) \<noteq> Some a"
    "\<forall>a. Some (1::nat) = Some a \<longrightarrow> (None :: nat option) \<noteq> Some a"
    by simp_all
  have A: "length ?A = 1 * 2" by simp
  have rng: "(1::nat) * 1 \<le> INT_MAX" "(1::nat) * 2 \<le> INT_MAX" "(2::nat) * 2 \<le> INT_MAX"
    by (simp_all add: INT_MAX_def)
  have r: "?r = ?sgesvd ''A'' ''A'' 1 2 (col_major 1 2 ?A) 1 1 2" by simp
  have lens: "length (sv_a ?r) = 1 * 2" "length (sv_s ?r) = min 1 2"
    "length (sv_u ?r) = 1 * 1" "length (sv_vt ?r) = 2 * 2"
    by simp_all
  have info: "sv_info ?r > 0" by simp
  note th = utility_ssvd_failure_nulls [where ?h0.0 = ?h0 and sgesvd = ?sgesvd and lwork = 4
      and un = ?un, OF ok fr di A rng r lens info]
  then obtain h' where
    run: "utility_ssvd ?sgesvd 4 ?un (Ptr ?A) 1 2 (Some 0) (Some 1) None ?h0
            = Some (None, None, None, h')"
    and bl: "blocks h' = (\<lambda>x. if Some x = Some 0 \<or> Some x = Some 1 \<or> Some x = None then None
                              else blocks ?h0 x)"
    by (elim exE conjE) (rule that; assumption)
  have "blocks h' 0 = None" "blocks h' 1 = None" "blocks h' 2 = Some [5]" "blocks h' 3 = None"
    unfolding bl by simp_all
  with run show ?thesis by blast
qed

subsection \<open>The success path\<close>

lemma ssvd_U_loops_rw:
  assumes "blocks h u \<noteq> None" and "blocks h U \<noteq> None" and "u \<noteq> U"
    and "length (the (blocks h u)) = dim1 * dim1" and "length (the (blocks h U)) = dim1 * dim1"
  shows "for_loop 0 dim1
            (\<lambda>i h. for_loop 0 dim1
               (\<lambda>j h. do { x \<leftarrow> hload h u (j * dim1 + i); hstore U (i * dim1 + j) x h }) h)
            h
         = Some (h\<lparr>blocks := (blocks h)(U \<mapsto> col_major dim1 dim1 (the (blocks h u)))\<rparr>)"
  using assms ssvd_U_loops [of h u "the (blocks h u)" U "the (blocks h U)" dim1] by auto

lemma ssvd_V_loops_rw:
  assumes "blocks h vt \<noteq> None" and "blocks h V \<noteq> None" and "vt \<noteq> V"
    and "length (the (blocks h vt)) = dim2 * dim2" and "length (the (blocks h V)) = dim2 * dim2"
  shows "for_loop 0 dim2
            (\<lambda>i h. for_loop 0 dim2
               (\<lambda>j h. do { x \<leftarrow> hload h vt (i * dim2 + j); hstore V (i * dim2 + j) x h }) h)
            h
         = Some (h\<lparr>blocks := (blocks h)(V \<mapsto> the (blocks h vt))\<rparr>)"
  using assms ssvd_V_loops [of h vt "the (blocks h vt)" V "the (blocks h V)" dim2] by auto

lemma ssvd_S_loop_rw:
  assumes "blocks h s \<noteq> None" and "blocks h S \<noteq> None" and "s \<noteq> S"
    and "length (the (blocks h s)) = min dim1 dim2" and "length (the (blocks h S)) = dim1 * dim2"
  shows "for_loop 0 (min dim1 dim2) (\<lambda>i h. do { x \<leftarrow> hload h s i; hstore S (i * dim2 + i) x h }) h
         = Some (h\<lparr>blocks := (blocks h)(S \<mapsto>
              map (\<lambda>m. if m div dim2 = m mod dim2 then the (blocks h s) ! (m div dim2)
                        else the (blocks h S) ! m) [0..<dim1 * dim2])\<rparr>)"
proof -
  obtain sblk S0 where b: "blocks h s = Some sblk" "blocks h S = Some S0"
    using assms(1,2) by auto
  obtain d' where d': "for_loop 0 (min dim1 dim2)
        (\<lambda>i h. do { x \<leftarrow> hload h s i; hstore S (i * dim2 + i) x h }) h
          = Some (h\<lparr>blocks := (blocks h)(S \<mapsto> d')\<rparr>)"
    "length d' = dim1 * dim2"
    "\<forall>i<dim1. \<forall>j<dim2. d' ! (i * dim2 + j) = (if i = j then sblk ! i else S0 ! (i * dim2 + j))"
    using ssvd_S_loop [OF b assms(3) _ refl, of dim1 dim2] assms(4,5) b by auto
  have "d' = map (\<lambda>m. (\<lambda>i j. if i = j then sblk ! i else S0 ! (i * dim2 + j)) (m div dim2) (m mod dim2))
               [0..<dim1 * dim2]"
    using d'(2,3) by (rule matrix_eqI)
  then have "d' = map (\<lambda>m. if m div dim2 = m mod dim2 then sblk ! (m div dim2) else S0 ! m)
               [0..<dim1 * dim2]"
    by (simp add: div_mult_mod_eq)
  then show ?thesis using d'(1) b by (simp cong: if_cong)
qed

lemma col_major_nth:
  assumes "i < m" and "j < n"
  shows "col_major m n A ! (j * m + i) = A ! (i * n + j)"
proof -
  have "j * m + i < n * m" using idx_range [OF assms(2,1)] .
  then show ?thesis using assms by (simp add: col_major_def mult.commute)
qed

text \<open>
  With \<open>b\<close> the next free address before the call: the scratch blocks are \<open>b, \<dots>, b + 4\<close>,
  and the new \<open>U\<close>, \<open>S\<close>, \<open>V\<close> are \<open>b + 5\<close>, \<open>b + 6\<close>, \<open>b + 7\<close>.
\<close>

lemma utility_ssvd_success_run:
  assumes ok: "heap_ok h0"
    and fr: "freeable h0 U" "freeable h0 S" "freeable h0 V"
    and di: "\<forall>a. U = Some a \<longrightarrow> S \<noteq> Some a \<and> V \<noteq> Some a" "\<forall>a. S = Some a \<longrightarrow> V \<noteq> Some a"
    and A: "length Abuf = dim1 * dim2"
    and rng: "dim1 * dim1 \<le> INT_MAX" "dim1 * dim2 \<le> INT_MAX" "dim2 * dim2 \<le> INT_MAX"
    and r: "r = sgesvd ''A'' ''A'' dim1 dim2 (col_major dim1 dim2 Abuf) dim1 dim1 dim2"
    and lens: "length (sv_a r) = dim1 * dim2" "length (sv_s r) = min dim1 dim2"
      "length (sv_u r) = dim1 * dim1" "length (sv_vt r) = dim2 * dim2"
    and info: "\<not> sv_info r > 0"
  shows "utility_ssvd sgesvd lwork un (Ptr Abuf) dim1 dim2 U S V h0
     = Some (Some (Suc (Suc (Suc (Suc (Suc (brk h0)))))),
             Some (Suc (Suc (Suc (Suc (Suc (Suc (brk h0))))))),
             Some (Suc (Suc (Suc (Suc (Suc (Suc (Suc (brk h0)))))))),
             h0\<lparr>brk := Suc (Suc (Suc (Suc (Suc (Suc (Suc (Suc (brk h0)))))))),
                blocks := (\<lambda>x.
                  if x = Suc (Suc (Suc (Suc (Suc (brk h0))))) then Some (col_major dim1 dim1 (sv_u r))
                  else if x = Suc (Suc (Suc (Suc (Suc (Suc (brk h0)))))) then
                    Some (map (\<lambda>m. if m div dim2 = m mod dim2 then sv_s r ! (m div dim2) else 0)
                            [0..<dim1 * dim2])
                  else if x = Suc (Suc (Suc (Suc (Suc (Suc (Suc (brk h0))))))) then Some (sv_vt r)
                  else if Some x = U \<or> Some x = S \<or> Some x = V then None
                  else blocks h0 x)\<rparr>)"
proof -
  note nf = freeable_not_fresh [OF ok fr(1)] freeable_not_fresh [OF ok fr(2)]
    freeable_not_fresh [OF ok fr(3)]
  show ?thesis
    unfolding utility_ssvd_def Let_def hmalloc_def hcalloc_def MIN_of_min
    apply (simp add: int_mul_ok rng ssvd_input_loops_rw A hblock_def r [symmetric] hbackend_wrote_def
        lens min.commute info)
    apply (subst hfree3)
         apply (simp_all add: freeable_after_scratch fr di)
    apply (simp add: int_mul_ok rng ssvd_U_loops_rw ssvd_V_loops_rw ssvd_S_loop_rw nf nf [symmetric] lens)
    apply (simp add: hfree_Some nf nf [symmetric])
    apply (rule heap.equality)
      apply simp_all
    apply (rule ext)
    apply (simp add: heap_ok_fresh [OF ok] nf nf [symmetric] cong: if_cong)
    done
qed

text \<open>
  C6. When the backend does not report non-convergence and the products \<open>dim1 * dim1\<close>,
  \<open>dim1 * dim2\<close> and \<open>dim2 * dim2\<close> are \<^verbatim>\<open>int\<close>s, \<open>utility_ssvd\<close> returns three blocks
  that were not allocated before the call and are pairwise distinct: \<open>U\<close> of \<open>dim1 * dim1\<close>
  elements, the row-major transpose of the backend's column-major \<open>u\<close>; \<open>V\<close> of
  \<open>dim2 * dim2\<close> elements, the backend's \<open>vt\<close> element for element (column-major \<open>V\<^sup>T\<close> is
  row-major \<open>V\<close>); and \<open>S\<close> of \<open>dim1 * dim2\<close> elements with \<open>s ! i\<close> at \<open>(i, i)\<close> and zero
  everywhere else. The old \<open>*U\<close>, \<open>*S\<close>, \<open>*V\<close> are freed and no other block changes.
\<close>

theorem utility_ssvd_success_fresh_outputs:
  assumes ok: "heap_ok h0"
    and fr: "freeable h0 U" "freeable h0 S" "freeable h0 V"
    and di: "\<forall>a. U = Some a \<longrightarrow> S \<noteq> Some a \<and> V \<noteq> Some a" "\<forall>a. S = Some a \<longrightarrow> V \<noteq> Some a"
    and A: "length Abuf = dim1 * dim2"
    and rng: "dim1 * dim1 \<le> INT_MAX" "dim1 * dim2 \<le> INT_MAX" "dim2 * dim2 \<le> INT_MAX"
    and r: "r = sgesvd ''A'' ''A'' dim1 dim2 (col_major dim1 dim2 Abuf) dim1 dim1 dim2"
    and lens: "length (sv_a r) = dim1 * dim2" "length (sv_s r) = min dim1 dim2"
      "length (sv_u r) = dim1 * dim1" "length (sv_vt r) = dim2 * dim2"
    and info: "sv_info r \<le> 0"
  shows "\<exists>pu ps pv h' Ublk Sblk Vblk.
           utility_ssvd sgesvd lwork un (Ptr Abuf) dim1 dim2 U S V h0
             = Some (Some pu, Some ps, Some pv, h')
         \<and> blocks h0 pu = None \<and> blocks h0 ps = None \<and> blocks h0 pv = None
         \<and> pu \<noteq> ps \<and> pu \<noteq> pv \<and> ps \<noteq> pv
         \<and> blocks h' pu = Some Ublk \<and> blocks h' ps = Some Sblk \<and> blocks h' pv = Some Vblk
         \<and> length Ublk = dim1 * dim1 \<and> length Sblk = dim1 * dim2 \<and> length Vblk = dim2 * dim2
         \<and> (\<forall>i<dim1. \<forall>j<dim1. Ublk ! (i * dim1 + j) = sv_u r ! (j * dim1 + i))
         \<and> (\<forall>i<dim2. \<forall>j<dim2. Vblk ! (i * dim2 + j) = sv_vt r ! (i * dim2 + j))
         \<and> (\<forall>i<dim1. \<forall>j<dim2. Sblk ! (i * dim2 + j) = (if i = j then sv_s r ! i else 0))
         \<and> (\<forall>x. x \<noteq> pu \<and> x \<noteq> ps \<and> x \<noteq> pv \<longrightarrow>
                blocks h' x = (if Some x = U \<or> Some x = S \<or> Some x = V then None else blocks h0 x))"
proof -
  let ?pu = "Suc (Suc (Suc (Suc (Suc (brk h0)))))"
  let ?ps = "Suc ?pu"
  let ?pv = "Suc ?ps"
  let ?Sblk = "map (\<lambda>m. if m div dim2 = m mod dim2 then sv_s r ! (m div dim2) else 0)
                 [0..<dim1 * dim2]"
  from info have info': "\<not> sv_info r > 0" by simp
  note run = utility_ssvd_success_run [where sgesvd = sgesvd and lwork = lwork and un = un,
      OF ok fr di A rng r lens info']
  have fresh: "blocks h0 ?pu = None" "blocks h0 ?ps = None" "blocks h0 ?pv = None"
    by (simp_all add: heap_ok_fresh [OF ok])
  have U: "\<forall>i<dim1. \<forall>j<dim1. col_major dim1 dim1 (sv_u r) ! (i * dim1 + j) = sv_u r ! (j * dim1 + i)"
    by (simp add: col_major_nth)
  have S: "\<forall>i<dim1. \<forall>j<dim2. ?Sblk ! (i * dim2 + j) = (if i = j then sv_s r ! i else 0)"
  proof (intro allI impI)
    fix i j assume i: "i < dim1" and j: "j < dim2"
    have "i * dim2 + j < dim1 * dim2" using idx_range [OF i j] .
    then have "?Sblk ! (i * dim2 + j)
        = (if (i * dim2 + j) div dim2 = (i * dim2 + j) mod dim2
           then sv_s r ! ((i * dim2 + j) div dim2) else 0)"
      by simp
    also have "\<dots> = (if i = j then sv_s r ! i else 0)"
      using j by simp
    finally show "?Sblk ! (i * dim2 + j) = (if i = j then sv_s r ! i else 0)" .
  qed
  show ?thesis
    apply (rule exI [where x = ?pu])
    apply (rule exI [where x = ?ps])
    apply (rule exI [where x = ?pv])
    apply (subst run)
    using U S apply (simp add: fresh lens)
    done
qed

theorem utility_ssvd_success_fresh_outputs_witness:
  "\<exists>pu ps pv h' Ublk Sblk Vblk.
      utility_ssvd
        (\<lambda>jobu jobvt m n a lda ldu ldvt.
           \<lparr>sv_a = [7, 7], sv_s = [3], sv_u = [1], sv_vt = [4, 5, 6, 8], sv_info = 0\<rparr>)
        4 \<lparr>u_float = 0x7FC00000, u_double = 0, u_int = 9, u_info = 1\<rparr>
        (Ptr [1, 2]) 1 2 (Some 0) (Some 1) None
        \<lparr>blocks = [0 \<mapsto> [8], 1 \<mapsto> [9, 9], 2 \<mapsto> [5]], brk = 3\<rparr>
      = Some (Some pu, Some ps, Some pv, h')
    \<and> pu \<notin> {0, 1, 2} \<and> ps \<notin> {0, 1, 2} \<and> pv \<notin> {0, 1, 2}
    \<and> blocks h' pu = Some Ublk \<and> blocks h' ps = Some Sblk \<and> blocks h' pv = Some Vblk
    \<and> Ublk = [1] \<and> Sblk = [3, 0] \<and> Vblk = [4, 5, 6, 8]
    \<and> blocks h' 0 = None \<and> blocks h' 1 = None \<and> blocks h' 2 = Some [5]"
proof -
  let ?r = "\<lparr>sv_a = [7, 7 :: float], sv_s = [3 :: float], sv_u = [1 :: float],
             sv_vt = [4, 5, 6, 8 :: float], sv_info = 0\<rparr>"
  let ?sgesvd = "\<lambda>(jobu::string) (jobvt::string) (m::nat) (n::nat) (a::float list) (lda::nat)
                   (ldu::nat) (ldvt::nat). ?r"
  let ?un = "\<lparr>u_float = 0x7FC00000, u_double = 0, u_int = 9, u_info = 1\<rparr>"
  let ?h0 = "\<lparr>blocks = [0 \<mapsto> [8 :: float], 1 \<mapsto> [9, 9], 2 \<mapsto> [5]], brk = 3\<rparr>"
  let ?A = "[1, 2] :: float list"
  have ok: "heap_ok ?h0" by (simp add: heap_ok_def)
  have fr: "freeable ?h0 (Some 0)" "freeable ?h0 (Some 1)" "freeable ?h0 None"
    by (simp_all add: freeable_def)
  have di: "\<forall>a. Some (0::nat) = Some a \<longrightarrow> Some (1::nat) \<noteq> Some a \<and> (None :: nat option) \<noteq> Some a"
    "\<forall>a. Some (1::nat) = Some a \<longrightarrow> (None :: nat option) \<noteq> Some a"
    by simp_all
  have A: "length ?A = 1 * 2" by simp
  have rng: "(1::nat) * 1 \<le> INT_MAX" "(1::nat) * 2 \<le> INT_MAX" "(2::nat) * 2 \<le> INT_MAX"
    by (simp_all add: INT_MAX_def)
  have r: "?r = ?sgesvd ''A'' ''A'' 1 2 (col_major 1 2 ?A) 1 1 2" by simp
  have lens: "length (sv_a ?r) = 1 * 2" "length (sv_s ?r) = min 1 2"
    "length (sv_u ?r) = 1 * 1" "length (sv_vt ?r) = 2 * 2"
    by simp_all
  have info: "sv_info ?r \<le> 0" by simp
  note th = utility_ssvd_success_fresh_outputs [where ?h0.0 = ?h0 and sgesvd = ?sgesvd
      and lwork = 4 and un = ?un, OF ok fr di A rng r lens info]
  then obtain pu ps pv h' Ublk Sblk Vblk where
    run: "utility_ssvd ?sgesvd 4 ?un (Ptr ?A) 1 2 (Some 0) (Some 1) None ?h0
            = Some (Some pu, Some ps, Some pv, h')"
    and fresh: "blocks ?h0 pu = None" "blocks ?h0 ps = None" "blocks ?h0 pv = None"
    and ne: "pu \<noteq> ps" "pu \<noteq> pv" "ps \<noteq> pv"
    and bl: "blocks h' pu = Some Ublk" "blocks h' ps = Some Sblk" "blocks h' pv = Some Vblk"
    and len: "length Ublk = 1 * 1" "length Sblk = 1 * 2" "length Vblk = 2 * 2"
    and U: "\<forall>i<1. \<forall>j<1. Ublk ! (i * 1 + j) = sv_u ?r ! (j * 1 + i)"
    and V: "\<forall>i<2. \<forall>j<2. Vblk ! (i * 2 + j) = sv_vt ?r ! (i * 2 + j)"
    and S: "\<forall>i<1. \<forall>j<2. Sblk ! (i * 2 + j) = (if i = j then sv_s ?r ! i else 0)"
    and frame: "\<forall>x. x \<noteq> pu \<and> x \<noteq> ps \<and> x \<noteq> pv \<longrightarrow>
        blocks h' x = (if Some x = Some 0 \<or> Some x = Some 1 \<or> Some x = None then None
                       else blocks ?h0 x)"
    by (elim exE conjE) (rule that; assumption)
  have notin: "pu \<notin> {0, 1, 2}" "ps \<notin> {0, 1, 2}" "pv \<notin> {0, 1, 2}"
    using fresh by (auto split: if_splits)
  have Ub: "Ublk = [1]"
    using len(1) U by (intro nth_equalityI) simp_all
  have Sb: "Sblk = [3, 0]"
  proof (rule nth_equalityI)
    show "length Sblk = length [3, 0 :: float]" using len(2) by simp
    fix m assume "m < length Sblk"
    then have "m = 0 \<or> m = 1" using len(2) by auto
    moreover have "Sblk ! 0 = 3" using S [rule_format, of 0 0] by simp
    moreover have "Sblk ! 1 = 0" using S [rule_format, of 0 1] by simp
    ultimately show "Sblk ! m = [3, 0] ! m" by auto
  qed
  have Vb: "Vblk = [4, 5, 6, 8]"
  proof (rule nth_equalityI)
    show "length Vblk = length [4, 5, 6, 8 :: float]" using len(3) by simp
    fix m assume "m < length Vblk"
    then have "m = 0 \<or> m = 1 \<or> m = 2 \<or> m = 3" using len(3) by auto
    moreover have "Vblk ! 0 = 4" using V [rule_format, of 0 0] by simp
    moreover have "Vblk ! 1 = 5" using V [rule_format, of 0 1] by simp
    moreover have "Vblk ! 2 = 6" using V [rule_format, of 1 0] by simp
    moreover have "Vblk ! 3 = 8" using V [rule_format, of 1 1] by simp
    ultimately show "Vblk ! m = [4, 5, 6, 8] ! m" by auto
  qed
  have old: "blocks h' 0 = None" "blocks h' 1 = None" "blocks h' 2 = Some [5]"
    using frame [rule_format, of 0] frame [rule_format, of 1] frame [rule_format, of 2] notin
    by simp_all
  from run notin bl Ub Sb Vb old show ?thesis by blast
qed

end
